theory Spec2Isabelle
  imports Complex_Main
begin

section \<open>Data model of the world map loaders\<close>

text \<open>
  The records follow \<^verbatim>\<open>definitions.ts\<close> as it is used by the loaders. Field names that
  would shadow a HOL constant or a variable name carry a short prefix: a zone is
  \<^verbatim>\<open>{x, y, w, h}\<close>, a point \<^verbatim>\<open>{x, y}\<close>, and the \<^verbatim>\<open>id\<close>, \<^verbatim>\<open>name\<close> and \<^verbatim>\<open>file\<close> of a state are
  \<open>sid\<close>, \<open>sname\<close> and \<open>sfile\<close>. Ids are JavaScript numbers that the parser produced
  with \<^verbatim>\<open>parseInt\<close>; they are integers here.
\<close>

record Zone =
  zx :: int
  zy :: int
  zw :: int
  zh :: int

record Point =
  px :: rat
  py :: rat

record Region =
  boundingBox :: Zone
  centerOfMass :: Point
  mass :: int

record Edge =
  edge_to :: int
  edge_type :: string

record Province = Region +
  pid :: int
  color :: int
  ptype :: string
  edges :: "Edge list"

text \<open>
  A warning text is \<^verbatim>\<open>localize(key, template, args...)\<close>. The localisation table is not
  part of the loaders, so a text is kept as its key and its arguments; the template
  string \<^verbatim>\<open>`${a}-${b}`\<close> of the gap warning is the argument \<open>Span a b\<close>.
\<close>

datatype Arg = Num int | Str string | Span int int

datatype Text = Localize string "Arg list"

record WarningSource =
  wtype :: string
  wid :: int
  wcolor :: "int option"

record Warning =
  wsource :: "WarningSource list"
  relatedFiles :: "string list"
  wtext :: Text

definition src :: "string \<Rightarrow> int \<Rightarrow> WarningSource" where
  "src t i = \<lparr>wtype = t, wid = i, wcolor = None\<rparr>"

definition srcColor :: "string \<Rightarrow> int \<Rightarrow> int \<Rightarrow> WarningSource" where
  "srcColor t i c = \<lparr>wtype = t, wid = i, wcolor = Some c\<rparr>"

text \<open>
  \<^verbatim>\<open>StateNoBoundingBox\<close> is a state before its geometry is known; \<^verbatim>\<open>State\<close> adds the
  region that \<^verbatim>\<open>Object.assign\<close> copies into it. The history fields (owner, cores,
  victory points) and the token are not read by any function below and are left out.
\<close>

record StateNoBoundingBox =
  sid :: int
  sname :: string
  manpower :: int
  category :: string
  sprovinces :: "int list"
  impassable :: bool
  sfile :: string

record State = StateNoBoundingBox +
  sregion :: Region

text \<open>
  A JavaScript array: \<open>slots a i\<close> is \<^verbatim>\<open>a[i]\<close>, \<open>None\<close> for a hole or an index out of
  range (both read as \<^verbatim>\<open>undefined\<close>). A store at a negative index creates a property
  and leaves \<^verbatim>\<open>length\<close> alone, which is how the loaders keep their bad records.
\<close>

record 'a Array =
  slots :: "int \<Rightarrow> 'a option"
  len :: int

datatype error = MaxIdTooLarge int | TypeError string | ReferenceError string

section \<open>Reading one state definition (\<^verbatim>\<open>loadState\<close>)\<close>

record StateDefinition =
  def_id :: "int option"
  def_name :: "string option"
  def_manpower :: "int option"
  def_state_category :: "string option"
  def_provinces :: "int list"
  def_impassable :: "bool option"

text \<open>\<^verbatim>\<open>state.id ? state.id : (warnings.push(...), -1)\<close>: a missing id and the number 0 are
  both falsy.\<close>

definition idFalsy :: "int option \<Rightarrow> bool" where
  "idFalsy i = (case i of None \<Rightarrow> True | Some v \<Rightarrow> v = 0)"

definition loadId :: "int option \<Rightarrow> int" where
  "loadId i = (case i of None \<Rightarrow> -1 | Some v \<Rightarrow> if v \<noteq> 0 then v else -1)"

definition stateWarning :: "int \<Rightarrow> string \<Rightarrow> Text \<Rightarrow> Warning" where
  "stateWarning i f t = \<lparr>wsource = [src ''state'' i], relatedFiles = [f], wtext = t\<rparr>"

text \<open>
  The body of the loop over \<^verbatim>\<open>data.state\<close>: the record that is pushed to the result and
  what is pushed to \<^verbatim>\<open>globalWarnings\<close>. The definitions are what the parser returned;
  the victory point check, which reads the history, is left out with the history fields.
\<close>

definition loadStateDefinition ::
  "string \<Rightarrow> StateDefinition \<Rightarrow> StateNoBoundingBox \<times> Warning list" where
  "loadStateDefinition stateFile d =
    (let i = loadId (def_id d);
         w1 = (if idFalsy (def_id d)
               then [Localize ''worldmap.warnings.statenoid'' [Str stateFile]] else []);
         nm = (case def_name d of None \<Rightarrow> [] | Some n \<Rightarrow> n);
         w2 = (if nm = [] then [Localize ''worldmap.warnings.statenoname'' []] else []);
         cat = (case def_state_category d of None \<Rightarrow> [] | Some c \<Rightarrow> c);
         w3 = (if cat = [] then [Localize ''worldmap.warnings.statenocategory'' []] else []);
         g = (if def_provinces d = []
              then [stateWarning i stateFile
                      (Localize ''worldmap.warnings.statenoprovinces'' [Num i, Str stateFile])]
              else [])
     in (\<lparr>sid = i, sname = nm,
          manpower = (case def_manpower d of None \<Rightarrow> 0 | Some m \<Rightarrow> m),
          category = cat, sprovinces = def_provinces d,
          impassable = (case def_impassable d of None \<Rightarrow> False | Some b \<Rightarrow> b),
          sfile = stateFile\<rparr>,
         g @ map (stateWarning i stateFile) (w1 @ w2 @ w3)))"

fun loadState :: "string \<Rightarrow> StateDefinition list \<Rightarrow> StateNoBoundingBox list \<times> Warning list" where
  "loadState stateFile [] = ([], [])"
| "loadState stateFile (d # ds) =
    (let (s, w) = loadStateDefinition stateFile d;
         (ss, ws) = loadState stateFile ds
     in (s # ss, w @ ws))"

section \<open>Id reconciliation (\<^verbatim>\<open>sortStates\<close> of \<^verbatim>\<open>states.ts\<close>)\<close>

text \<open>
  \<^verbatim>\<open>states.reduce((p, c) => c.id > p ? c.id : p, 0)\<close>
\<close>

definition maxStateId :: "('a StateNoBoundingBox_scheme) list \<Rightarrow> int" where
  "maxStateId states = foldl (\<lambda>p c. if sid c > p then sid c else p) 0 states"

text \<open>
  The state of the \<^verbatim>\<open>forEach\<close>: the array under construction, the counter
  \<^verbatim>\<open>badStateId\<close> and the warning list that the callback pushes to.
\<close>

record Placement =
  res :: "int \<Rightarrow> StateNoBoundingBox option"
  bad :: int
  warns :: "Warning list"

definition conflictWarning :: "int \<Rightarrow> string \<Rightarrow> string \<Rightarrow> int \<Rightarrow> Warning" where
  "conflictWarning b newFile oldFile i =
     \<lparr>wsource = [src ''state'' b], relatedFiles = [newFile, oldFile],
      wtext = Localize ''worldmap.warnings.stateidconflict'' [Num i]\<rparr>"

text \<open>
  One call of the \<^verbatim>\<open>forEach\<close> callback. \<open>p1\<close> and \<open>b1\<close> are the record and the
  counter after the first \<^verbatim>\<open>if\<close> (\<^verbatim>\<open>p.id = badStateId--\<close> stores the old value of the
  counter); an occupied slot is truthy.
\<close>

definition place :: "StateNoBoundingBox \<Rightarrow> Placement \<Rightarrow> Placement" where
  "place p a =
    (let p1 = (if sid p = -1 then p\<lparr>sid := bad a\<rparr> else p);
         b1 = (if sid p = -1 then bad a - 1 else bad a)
     in case res a (sid p1) of
          Some e \<Rightarrow>
            \<lparr>res = (res a)(b1 \<mapsto> p1\<lparr>sid := b1\<rparr>),
             bad = b1 - 1,
             warns = warns a @ [conflictWarning b1 (sfile p1) (sfile e) (sid p1)]\<rparr>
        | None \<Rightarrow> \<lparr>res = (res a)(sid p1 \<mapsto> p1), bad = b1, warns = warns a\<rparr>)"

definition placeAll :: "StateNoBoundingBox list \<Rightarrow> Placement \<Rightarrow> Placement" where
  "placeAll states a = foldl (\<lambda>a p. place p a) a states"

definition gapWarning :: "int \<Rightarrow> int \<Rightarrow> Warning" where
  "gapWarning l i =
     \<lparr>wsource = [src ''state'' i], relatedFiles = [],
      wtext = Localize ''worldmap.warnings.statenotexist''
                [if l = i - 1 then Num (i - 1) else Span l (i - 1)]\<rparr>"

text \<open>
  The loop \<^verbatim>\<open>for (let i = 1; i <= maxStateId; i++)\<close> with its variable
  \<^verbatim>\<open>lastNotExistStateId\<close>; the result is the warning list after the loop.
\<close>

function gapLoop ::
  "(int \<Rightarrow> 'a option) \<Rightarrow> int \<Rightarrow> int \<Rightarrow> int option \<Rightarrow> Warning list \<Rightarrow> Warning list" where
  "gapLoop result i n lastNotExist ws =
    (if i \<le> n then
       (case result i of
          Some s \<Rightarrow>
            (case lastNotExist of
               Some l \<Rightarrow> gapLoop result (i + 1) n None (ws @ [gapWarning l i])
             | None \<Rightarrow> gapLoop result (i + 1) n None ws)
        | None \<Rightarrow>
            (case lastNotExist of
               None \<Rightarrow> gapLoop result (i + 1) n (Some i) ws
             | Some l \<Rightarrow> gapLoop result (i + 1) n (Some l) ws))
     else ws)"
  by pat_completeness auto
termination
  by (relation "measure (\<lambda>(result, i, n, lastNotExist, ws). nat (n + 1 - i))") auto

declare gapLoop.simps [simp del]

record SortedStates =
  sortedStates :: "StateNoBoundingBox Array"
  badStateId :: int

definition sortStates ::
  "StateNoBoundingBox list \<Rightarrow> Warning list \<Rightarrow> error + (SortedStates \<times> Warning list)" where
  "sortStates states warnings =
    (let m = maxStateId states in
     if m > 10000 then Inl (MaxIdTooLarge m)
     else
       let a = placeAll states \<lparr>res = Map.empty, bad = -1, warns = warnings\<rparr>
       in Inr (\<lparr>sortedStates = \<lparr>slots = res a, len = m + 1\<rparr>, badStateId = bad a\<rparr>,
               gapLoop (res a) 1 m None (warns a)))"

section \<open>Region geometry\<close>

text \<open>
  \<^verbatim>\<open>mergeBoundingBox\<close> and \<^verbatim>\<open>mergeRegions\<close> are imported from \<^verbatim>\<open>./common\<close>, a file of
  the repository that is not available here. Their definitions below follow section 4.3
  of the specification; \<open>calculateBoundingBox\<close> takes the merge function as a parameter.
\<close>

definition unionBox :: "Zone \<Rightarrow> Zone \<Rightarrow> Zone" where
  "unionBox a b =
     \<lparr>zx = min (zx a) (zx b), zy = min (zy a) (zy b),
      zw = max (zx a + zw a) (zx b + zw b) - min (zx a) (zx b),
      zh = max (zy a + zh a) (zy b + zh b) - min (zy a) (zy b)\<rparr>"

definition shiftBox :: "int \<Rightarrow> Zone \<Rightarrow> Zone" where
  "shiftBox width a = a\<lparr>zx := zx a + width\<rparr>"

definition narrower :: "Zone \<Rightarrow> Zone \<Rightarrow> Zone" where
  "narrower a b = (if zw b < zw a then b else a)"

text \<open>
  Modelled from the spec: \<^verbatim>\<open>mergeBoundingBox\<close> of \<^verbatim>\<open>./common\<close> is missing. The spec says:
  for two boxes, compute the wraparound-adjusted union that minimizes total width,
  assuming the map's x-axis wraps at \<open>mapWidth\<close>. The candidate unions are the one of the
  two boxes as they are and the two with one box moved right by one map width.
\<close>

definition mergeBoundingBox :: "Zone \<Rightarrow> Zone \<Rightarrow> int \<Rightarrow> Zone" where
  "mergeBoundingBox a b width =
     narrower (narrower (unionBox a b) (unionBox (shiftBox width a) b))
              (unionBox a (shiftBox width b))"

definition wrappedCentre :: "Zone \<Rightarrow> int \<Rightarrow> 'a Region_scheme \<Rightarrow> rat" where
  "wrappedCentre box width r =
     (if px (centerOfMass r) < of_int (zx box) then px (centerOfMass r) + of_int width
      else px (centerOfMass r))"

text \<open>
  Modelled from the spec: \<^verbatim>\<open>mergeRegions\<close> of \<^verbatim>\<open>./common\<close> is missing. The spec says: it
  reduces a non-empty list of member bounding boxes into one box using the cylindrical
  merge; mass is the sum of the member masses; the centre of mass is the mass-weighted
  centroid, also wraparound-aware on x (a member centre left of the merged box counts one
  map width further right). The callers pass a non-empty list; the empty list, for which
  the spec says nothing, gets the zero box.
\<close>

definition mergeRegions :: "'a Region_scheme list \<Rightarrow> int \<Rightarrow> Region" where
  "mergeRegions members width =
     (let box = (case map boundingBox members of
                   [] \<Rightarrow> \<lparr>zx = 0, zy = 0, zw = 0, zh = 0\<rparr>
                 | b # bs \<Rightarrow> foldl (\<lambda>p c. mergeBoundingBox p c width) b bs);
          total = sum_list (map mass members)
      in \<lparr>boundingBox = box,
          centerOfMass =
            (if total = 0 then \<lparr>px = 0, py = 0\<rparr>
             else \<lparr>px = sum_list (map (\<lambda>r. of_int (mass r) * wrappedCentre box width r) members)
                        / of_int total,
                   py = sum_list (map (\<lambda>r. of_int (mass r) * py (centerOfMass r)) members)
                        / of_int total\<rparr>),
          mass = total\<rparr>)"

section \<open>Geometry of a state (\<^verbatim>\<open>calculateBoundingBox\<close>, Region version)\<close>

definition withRegion :: "StateNoBoundingBox \<Rightarrow> Region \<Rightarrow> State" where
  "withRegion s r =
     \<lparr>sid = sid s, sname = sname s, manpower = manpower s, category = category s,
      sprovinces = sprovinces s, impassable = impassable s, sfile = sfile s, sregion = r\<rparr>"

definition zeroRegion :: Region where
  "zeroRegion = \<lparr>boundingBox = \<lparr>zx = 0, zy = 0, zw = 0, zh = 0\<rparr>,
                 centerOfMass = \<lparr>px = 0, py = 0\<rparr>, mass = 0\<rparr>"

definition provinceNotExistWarning :: "int \<Rightarrow> string \<Rightarrow> int \<Rightarrow> Warning" where
  "provinceNotExistWarning i f p =
     \<lparr>wsource = [src ''state'' i], relatedFiles = [f],
      wtext = Localize ''worldmap.warnings.stateprovincenotexist'' [Num p, Num i]\<rparr>"

definition noValidProvincesWarning :: "int \<Rightarrow> string \<Rightarrow> Warning" where
  "noValidProvincesWarning i f =
     \<lparr>wsource = [src ''state'' i], relatedFiles = [f],
      wtext = Localize ''worldmap.warnings.statenovalidprovinces'' [Num i]\<rparr>"

definition tooLargeWarning :: "int \<Rightarrow> string \<Rightarrow> Zone \<Rightarrow> Warning" where
  "tooLargeWarning i f b =
     \<lparr>wsource = [src ''state'' i], relatedFiles = [f],
      wtext = Localize ''worldmap.warnings.statetoolarge'' [Num i, Num (zw b), Num (zh b)]\<rparr>"

text \<open>
  The \<^verbatim>\<open>.map\<close> callback: look each province id up, push a warning for a missing one, and
  return what the lookup gave; \<^verbatim>\<open>.filter\<close> then drops the missing ones.
\<close>

fun lookupProvinces ::
  "int \<Rightarrow> string \<Rightarrow> (int \<Rightarrow> Province option) \<Rightarrow> int list \<Rightarrow> Warning list \<Rightarrow>
   Province option list \<times> Warning list" where
  "lookupProvinces i f provinces [] ws = ([], ws)"
| "lookupProvinces i f provinces (p # ps) ws =
     (case provinces p of
        None \<Rightarrow>
          (let (r, ws') = lookupProvinces i f provinces ps (ws @ [provinceNotExistWarning i f p])
           in (None # r, ws'))
      | Some province \<Rightarrow>
          (let (r, ws') = lookupProvinces i f provinces ps ws in (Some province # r, ws')))"

text \<open>
  \<^verbatim>\<open>calculateBoundingBox\<close> of the states loader. The merge function of \<^verbatim>\<open>./common\<close> is
  the parameter \<open>mergeRegionsOf\<close>. The test \<^verbatim>\<open>boundingBox.w > width / 2\<close> divides
  JavaScript numbers; over the integers it is \<open>width < 2 * w\<close>.
\<close>

definition calculateBoundingBox ::
  "(Province list \<Rightarrow> int \<Rightarrow> Region) \<Rightarrow> StateNoBoundingBox \<Rightarrow> (int \<Rightarrow> Province option) \<Rightarrow>
   int \<Rightarrow> int \<Rightarrow> Warning list \<Rightarrow> State \<times> Warning list" where
  "calculateBoundingBox mergeRegionsOf noBoundingBoxState provinces width height warnings =
    (let (looked, ws) = lookupProvinces (sid noBoundingBoxState) (sfile noBoundingBoxState)
                          provinces (sprovinces noBoundingBoxState) warnings;
         provincesInState = List.map_filter (\<lambda>p. p) looked
     in if length provincesInState > 0 then
          (let state = withRegion noBoundingBoxState (mergeRegionsOf provincesInState width);
               box = boundingBox (sregion state)
           in (state,
               if width < 2 * zw box \<or> height < 2 * zh box
               then ws @ [tooLargeWarning (sid state) (sfile state) box] else ws))
        else
          (withRegion noBoundingBoxState zeroRegion,
           if length (sprovinces noBoundingBoxState) > 0
           then ws @ [noValidProvincesWarning (sid noBoundingBoxState) (sfile noBoundingBoxState)]
           else ws))"

section \<open>Geometry of a strategic region\<close>

record StrategicRegionNoRegion =
  rid :: int
  rname :: string
  rprovinces :: "int list"
  navalTerrain :: "string option"
  rfile :: string

record StrategicRegion = StrategicRegionNoRegion +
  rregion :: Region

definition withRegionSR :: "StrategicRegionNoRegion \<Rightarrow> Region \<Rightarrow> StrategicRegion" where
  "withRegionSR s r =
     \<lparr>rid = rid s, rname = rname s, rprovinces = rprovinces s, navalTerrain = navalTerrain s,
      rfile = rfile s, rregion = r\<rparr>"

text \<open>
  \<^verbatim>\<open>calculateBoundingBox\<close> of the strategic regions loader; the suffix \<open>SR\<close> tells it from
  the function of the states loader. Its \<^verbatim>\<open>.map\<close> callback builds the warning for a
  missing province from \<^verbatim>\<open>strategicRegion.id\<close> and \<^verbatim>\<open>strategicRegion.file\<close>, but
  \<^verbatim>\<open>strategicRegion\<close> is the \<^verbatim>\<open>let\<close> declared after the \<^verbatim>\<open>.map\<close> call, still
  uninitialised while the callback runs: evaluating the object literal throws before
  anything is pushed (a ReferenceError; a TypeError if the compiler lowers \<^verbatim>\<open>let\<close> to
  \<^verbatim>\<open>var\<close>).
\<close>

fun lookupProvincesSR ::
  "(int \<Rightarrow> Province option) \<Rightarrow> int list \<Rightarrow> error + Province option list" where
  "lookupProvincesSR provinces [] = Inr []"
| "lookupProvincesSR provinces (p # ps) =
     (case provinces p of
        None \<Rightarrow> Inl (ReferenceError ''strategicRegion'')
      | Some province \<Rightarrow>
          (case lookupProvincesSR provinces ps of
             Inl e \<Rightarrow> Inl e
           | Inr r \<Rightarrow> Inr (Some province # r)))"

definition noValidProvincesWarningSR :: "int \<Rightarrow> string \<Rightarrow> Warning" where
  "noValidProvincesWarningSR i f =
     \<lparr>wsource = [src ''strategicregion'' i], relatedFiles = [f],
      wtext = Localize ''TODO'' [Num i]\<rparr>"

definition calculateBoundingBoxSR ::
  "(Province list \<Rightarrow> int \<Rightarrow> Region) \<Rightarrow> StrategicRegionNoRegion \<Rightarrow> (int \<Rightarrow> Province option) \<Rightarrow>
   int \<Rightarrow> Warning list \<Rightarrow> error + (StrategicRegion \<times> Warning list)" where
  "calculateBoundingBoxSR mergeRegionsOf strategicRegionNoRegion provinces width warnings =
    (case lookupProvincesSR provinces (rprovinces strategicRegionNoRegion) of
       Inl e \<Rightarrow> Inl e
     | Inr looked \<Rightarrow>
        (let provincesInStrategicRegion = List.map_filter (\<lambda>p. p) looked
         in if length provincesInStrategicRegion > 0 then
              Inr (withRegionSR strategicRegionNoRegion
                     (mergeRegionsOf provincesInStrategicRegion width), warnings)
            else
              Inr (withRegionSR strategicRegionNoRegion zeroRegion,
                   if length (rprovinces strategicRegionNoRegion) > 0
                   then warnings @ [noValidProvincesWarningSR (rid strategicRegionNoRegion)
                                      (rfile strategicRegionNoRegion)]
                   else warnings)))"

section \<open>Cross-entity validation of states (\<^verbatim>\<open>validateProvinceInState\<close>)\<close>

definition multiStatesWarning :: "State \<Rightarrow> int \<Rightarrow> string \<Rightarrow> int \<Rightarrow> Province \<Rightarrow> Warning" where
  "multiStatesWarning state owner ownerFile p province =
     \<lparr>wsource = [src ''state'' (sid state), src ''state'' owner,
                 srcColor ''province'' p (color province)],
      relatedFiles = [sfile state, ownerFile],
      wtext = Localize ''worldmap.warnings.provinceinmultistates''
                [Num p, Num owner, Num (sid state)]\<rparr>"

definition seaWarning :: "State \<Rightarrow> int \<Rightarrow> Province \<Rightarrow> Warning" where
  "seaWarning state p province =
     \<lparr>wsource = [src ''state'' (sid state), srcColor ''province'' p (color province)],
      relatedFiles = [sfile state],
      wtext = Localize ''worldmap.warnings.statehassea'' [Num p]\<rparr>"

definition pushSea :: "State \<Rightarrow> int \<Rightarrow> Province option \<Rightarrow> Warning list \<Rightarrow> Warning list" where
  "pushSea state p province ws =
     (case province of
        None \<Rightarrow> ws
      | Some pr \<Rightarrow> if ptype pr = ''sea'' then ws @ [seaWarning state p pr] else ws)"

text \<open>
  The callback of \<^verbatim>\<open>state.provinces.forEach\<close>. The early \<^verbatim>\<open>return\<close> for a missing
  province leaves the callback before the sea test; \<^verbatim>\<open>states[provinceToState[p]]!.file\<close>
  throws a TypeError when that slot is empty.
\<close>

definition visitProvince ::
  "(int \<Rightarrow> Province option) \<Rightarrow> State Array \<Rightarrow> State \<Rightarrow> int \<Rightarrow>
   (int \<Rightarrow> int option) \<times> Warning list \<Rightarrow> error + ((int \<Rightarrow> int option) \<times> Warning list)" where
  "visitProvince provinces stateArray state p acc =
    (let provinceToState = fst acc; warnings = snd acc; province = provinces p
     in case provinceToState p of
          Some owner \<Rightarrow>
            (case province of
               None \<Rightarrow> Inr (provinceToState, warnings)
             | Some pr \<Rightarrow>
                 (case slots stateArray owner of
                    None \<Rightarrow> Inl (TypeError ''file'')
                  | Some ownerItem \<Rightarrow>
                      Inr (provinceToState,
                           pushSea state p province
                             (warnings @ [multiStatesWarning state owner (sfile ownerItem) p pr]))))
        | None \<Rightarrow> Inr (provinceToState(p \<mapsto> sid state), pushSea state p province warnings))"

fun visitProvinces ::
  "(int \<Rightarrow> Province option) \<Rightarrow> State Array \<Rightarrow> State \<Rightarrow> int list \<Rightarrow>
   (int \<Rightarrow> int option) \<times> Warning list \<Rightarrow> error + ((int \<Rightarrow> int option) \<times> Warning list)" where
  "visitProvinces provinces stateArray state [] acc = Inr acc"
| "visitProvinces provinces stateArray state (p # ps) acc =
     (case visitProvince provinces stateArray state p acc of
        Inl e \<Rightarrow> Inl e
      | Inr acc' \<Rightarrow> visitProvinces provinces stateArray state ps acc')"

text \<open>The loop \<^verbatim>\<open>for (let i = badStatesCount; i < states.length; i++)\<close>, over its indices.\<close>

fun validateStates ::
  "(int \<Rightarrow> Province option) \<Rightarrow> State Array \<Rightarrow> int list \<Rightarrow>
   (int \<Rightarrow> int option) \<times> Warning list \<Rightarrow> error + ((int \<Rightarrow> int option) \<times> Warning list)" where
  "validateStates provinces stateArray [] acc = Inr acc"
| "validateStates provinces stateArray (i # is) acc =
     (case slots stateArray i of
        None \<Rightarrow> validateStates provinces stateArray is acc
      | Some state \<Rightarrow>
          (case visitProvinces provinces stateArray state (sprovinces state) acc of
             Inl e \<Rightarrow> Inl e
           | Inr acc' \<Rightarrow> validateStates provinces stateArray is acc'))"

definition validateProvinceInState ::
  "(int \<Rightarrow> Province option) \<Rightarrow> State Array \<Rightarrow> int \<Rightarrow> Warning list \<Rightarrow> error + Warning list" where
  "validateProvinceInState provinces stateArray badStatesCount warnings =
     (case validateStates provinces stateArray [badStatesCount .. len stateArray - 1]
             (Map.empty, warnings) of
        Inl e \<Rightarrow> Inl e
      | Inr acc \<Rightarrow> Inr (snd acc))"

section \<open>Merging the state files (\<^verbatim>\<open>StatesLoader.mergeFiles\<close>)\<close>

record StateLoaderResult =
  loadedStates :: "State Array"
  badStatesCount :: int

definition fillStep ::
  "(Province list \<Rightarrow> int \<Rightarrow> Region) \<Rightarrow> StateNoBoundingBox Array \<Rightarrow> (int \<Rightarrow> Province option) \<Rightarrow>
   int \<Rightarrow> int \<Rightarrow> (int \<Rightarrow> State option) \<times> Warning list \<Rightarrow> int \<Rightarrow>
   (int \<Rightarrow> State option) \<times> Warning list" where
  "fillStep mergeRegionsOf sortedArr provinces width height acc i =
     (case slots sortedArr i of
        None \<Rightarrow> acc
      | Some s \<Rightarrow>
          (let (st, ws) = calculateBoundingBox mergeRegionsOf s provinces width height (snd acc)
           in ((fst acc)(i \<mapsto> st), ws)))"

text \<open>The loop \<^verbatim>\<open>for (let i = badStateId + 1; i < sortedStates.length; i++)\<close>.\<close>

definition fillStates ::
  "(Province list \<Rightarrow> int \<Rightarrow> Region) \<Rightarrow> SortedStates \<Rightarrow> (int \<Rightarrow> Province option) \<Rightarrow>
   int \<Rightarrow> int \<Rightarrow> Warning list \<Rightarrow> (int \<Rightarrow> State option) \<times> Warning list" where
  "fillStates mergeRegionsOf srt provinces width height warnings =
     foldl (fillStep mergeRegionsOf (sortedStates srt) provinces width height)
       (Map.empty, warnings) [badStateId srt + 1 .. len (sortedStates srt) - 1]"

text \<open>
  \<open>fileResults\<close> are the records and the warnings of each state file, in file order;
  \<^verbatim>\<open>mergeInLoadResult(fileResults, 'warnings')\<close> collects the warnings and the
  \<^verbatim>\<open>reduce\<close> concatenates the records. The province map (\<open>provinces\<close>, \<open>width\<close>,
  \<open>height\<close>) is the result of the default map loader.

  This is \<^verbatim>\<open>mergeFiles\<close> of the Region version of the loader. The \<^verbatim>\<open>sortStates\<close> that it
  calls is the one of that version, whose whole body hands the records, the bound 10000
  and three callbacks (throw on a too large id, push a conflict warning, push a gap
  warning) to \<^verbatim>\<open>sortItems\<close> of \<^verbatim>\<open>./common\<close>, which is not among the sources. The
  reconciliation is therefore the parameter \<open>sortStatesOf\<close>: from the records and the
  warnings so far it either throws or gives the array, the counter \<^verbatim>\<open>badStateId\<close> and
  the warnings with what the callbacks pushed. The \<open>sortStates\<close> of \<^verbatim>\<open>states.ts\<close> above
  is one such function. The merge function of \<^verbatim>\<open>./common\<close> is the parameter
  \<open>mergeRegionsOf\<close>, as in \<open>calculateBoundingBox\<close>.
\<close>

definition mergeFiles ::
  "(StateNoBoundingBox list \<Rightarrow> Warning list \<Rightarrow> error + (SortedStates \<times> Warning list)) \<Rightarrow>
   (Province list \<Rightarrow> int \<Rightarrow> Region) \<Rightarrow> (int \<Rightarrow> Province option) \<Rightarrow> int \<Rightarrow> int \<Rightarrow>
   (StateNoBoundingBox list \<times> Warning list) list \<Rightarrow> error + (StateLoaderResult \<times> Warning list)" where
  "mergeFiles sortStatesOf mergeRegionsOf provinces width height fileResults =
    (let warnings = concat (map snd fileResults);
         states = foldl (\<lambda>p c. p @ fst c) [] fileResults
     in case sortStatesOf states warnings of
          Inl e \<Rightarrow> Inl e
        | Inr (srt, ws1) \<Rightarrow>
            (let (filled, ws2) = fillStates mergeRegionsOf srt provinces width height ws1;
                 filledStates = \<lparr>slots = filled, len = len (sortedStates srt)\<rparr>
             in case validateProvinceInState provinces filledStates (badStateId srt + 1) ws2 of
                  Inl e \<Rightarrow> Inl e
                | Inr ws3 \<Rightarrow>
                    Inr (\<lparr>loadedStates = filledStates, badStatesCount = badStateId srt + 1\<rparr>,
                         ws3)))"

section \<open>Supply areas: contiguity and validation\<close>

record SupplyAreaNoRegion =
  aid :: int
  aname :: string
  avalue :: int
  astates :: "int list"
  afile :: string

record SupplyArea = SupplyAreaNoRegion +
  aregion :: Region

text \<open>
  \<^verbatim>\<open>provinces[p]?.edges.some(e => e.type !== 'impassable' &&
      stateB.provinces.some(p2 => provinces[p2] && e.to === p2)) ?? false\<close>
\<close>

definition statesAreAdjacent ::
  "'a StateNoBoundingBox_scheme \<Rightarrow> 'b StateNoBoundingBox_scheme \<Rightarrow> (int \<Rightarrow> Province option) \<Rightarrow> bool" where
  "statesAreAdjacent stateA stateB provinces =
     list_ex (\<lambda>p. case provinces p of
                    None \<Rightarrow> False
                  | Some pr \<Rightarrow>
                      list_ex (\<lambda>e. edge_type e \<noteq> ''impassable'' \<and>
                                   list_ex (\<lambda>p2. provinces p2 \<noteq> None \<and> edge_to e = p2)
                                     (sprovinces stateB))
                        (edges pr))
       (sprovinces stateA)"

text \<open>
  \<^verbatim>\<open>accessedStates\<close> is an object used as a set of ids; it is kept as the list of its
  keys in insertion order. The body of \<^verbatim>\<open>for (const state of states)\<close>:
\<close>

definition visitState ::
  "State \<Rightarrow> (int \<Rightarrow> Province option) \<Rightarrow> State list \<times> int list \<Rightarrow> State \<Rightarrow> State list \<times> int list" where
  "visitState currentState provinces acc state =
     (if sid state \<in> set (snd acc) then acc
      else if statesAreAdjacent state currentState provinces
           then (fst acc @ [state], snd acc @ [sid state])
           else acc)"

text \<open>
  \<^verbatim>\<open>while (stack.length)\<close>: \<^verbatim>\<open>pop\<close> takes the last element. The result is the key list
  of \<^verbatim>\<open>accessedStates\<close> when the stack is empty.
\<close>

function (sequential) searchStates ::
  "State list \<Rightarrow> (int \<Rightarrow> Province option) \<Rightarrow> State list \<Rightarrow> int list \<Rightarrow> int list" where
  "searchStates states provinces [] accessed = accessed"
| "searchStates states provinces stack accessed =
     (let acc = foldl (visitState (last stack) provinces) (butlast stack, accessed) states
      in searchStates states provinces (fst acc) (snd acc))"
  by pat_completeness auto

text \<open>
  \<^verbatim>\<open>Object.keys\<close> lists the keys that are array indices in ascending order first, then
  the other keys (here the negative ids) in insertion order. Ids that passed
  reconciliation are at most 10000, far below the largest array index.
\<close>

definition objectKeys :: "int list \<Rightarrow> int list" where
  "objectKeys ks = sort (filter (\<lambda>k. 0 \<le> k) ks) @ filter (\<lambda>k. k < 0) ks"

text \<open>
  \<^verbatim>\<open>states.find(...)!.id\<close> throws a TypeError when no state is found. The key list
  always holds the id of \<^verbatim>\<open>states[0]\<close>, so \<^verbatim>\<open>Object.keys(accessedStates)[0]\<close> exists.
\<close>

definition checkStatesContiguous ::
  "State list \<Rightarrow> (int \<Rightarrow> Province option) \<Rightarrow> error + (int \<times> int) option" where
  "checkStatesContiguous states provinces =
     (case states of
        [] \<Rightarrow> Inr None
      | s0 # rest \<Rightarrow>
          (let accessedKeys = objectKeys (searchStates states provinces [s0] [sid s0])
           in if length accessedKeys = length states then Inr None
              else
                (case find (\<lambda>state. sid state \<notin> set accessedKeys) states of
                   None \<Rightarrow> Inl (TypeError ''id'')
                 | Some u \<Rightarrow> Inr (Some (sid u, (case accessedKeys of [] \<Rightarrow> 0 | k # ks \<Rightarrow> k))))))"

definition multiSupplyAreasWarning ::
  "SupplyArea \<Rightarrow> int \<Rightarrow> string \<Rightarrow> int \<Rightarrow> State \<Rightarrow> Warning" where
  "multiSupplyAreasWarning supplyArea owner ownerFile s state =
     \<lparr>wsource = [src ''supplyarea'' (aid supplyArea), src ''supplyarea'' owner, src ''state'' s],
      relatedFiles = [afile supplyArea, ownerFile, sfile state],
      wtext = Localize ''worldmap.warnings.stateinmultiplesupplyareas''
                [Num s, Num owner, Num (aid supplyArea)]\<rparr>"

definition notContiguousWarning :: "int \<Rightarrow> string \<Rightarrow> int \<times> int \<Rightarrow> Warning" where
  "notContiguousWarning i f badStates =
     \<lparr>wsource = [src ''supplyarea'' i], relatedFiles = [f],
      wtext = Localize ''worldmap.warnings.statesnotcontiguous''
                [Num i, Num (fst badStates), Num (snd badStates)]\<rparr>"

definition noSupplyAreaWarning :: "int \<Rightarrow> string \<Rightarrow> Warning" where
  "noSupplyAreaWarning i f =
     \<lparr>wsource = [src ''state'' i], relatedFiles = [f],
      wtext = Localize ''worldmap.warnings.statenosupplyarea'' [Num i]\<rparr>"

text \<open>
  The callback of \<^verbatim>\<open>supplyArea.states.map\<close>: it returns the state (or \<^verbatim>\<open>undefined\<close>)
  together with the updated reverse map and warnings.
\<close>

definition visitMember ::
  "State Array \<Rightarrow> SupplyArea Array \<Rightarrow> SupplyArea \<Rightarrow> int \<Rightarrow>
   (int \<Rightarrow> int option) \<times> Warning list \<Rightarrow>
   error + (State option \<times> (int \<Rightarrow> int option) \<times> Warning list)" where
  "visitMember stateArray supplyAreas supplyArea s acc =
    (let stateToSupplyArea = fst acc; warnings = snd acc; state = slots stateArray s
     in case stateToSupplyArea s of
          Some owner \<Rightarrow>
            (case state of
               None \<Rightarrow> Inr (None, stateToSupplyArea, warnings)
             | Some st \<Rightarrow>
                 (case slots supplyAreas owner of
                    None \<Rightarrow> Inl (TypeError ''file'')
                  | Some ownerItem \<Rightarrow>
                      Inr (state, stateToSupplyArea,
                           warnings @ [multiSupplyAreasWarning supplyArea owner (afile ownerItem) s st])))
        | None \<Rightarrow> Inr (state, stateToSupplyArea(s \<mapsto> aid supplyArea), warnings))"

fun visitMembers ::
  "State Array \<Rightarrow> SupplyArea Array \<Rightarrow> SupplyArea \<Rightarrow> int list \<Rightarrow>
   (int \<Rightarrow> int option) \<times> Warning list \<Rightarrow>
   error + (State option list \<times> (int \<Rightarrow> int option) \<times> Warning list)" where
  "visitMembers stateArray supplyAreas supplyArea [] acc = Inr ([], fst acc, snd acc)"
| "visitMembers stateArray supplyAreas supplyArea (s # ss) acc =
     (case visitMember stateArray supplyAreas supplyArea s acc of
        Inl e \<Rightarrow> Inl e
      | Inr (st, m, ws) \<Rightarrow>
          (case visitMembers stateArray supplyAreas supplyArea ss (m, ws) of
             Inl e \<Rightarrow> Inl e
           | Inr (sts, m', ws') \<Rightarrow> Inr (st # sts, m', ws')))"

text \<open>The first loop of \<^verbatim>\<open>validateStatesInSupplyAreas\<close>, over its indices.\<close>

fun validateSupplyAreas ::
  "State Array \<Rightarrow> SupplyArea Array \<Rightarrow> (int \<Rightarrow> Province option) \<Rightarrow> int list \<Rightarrow>
   (int \<Rightarrow> int option) \<times> Warning list \<Rightarrow> error + ((int \<Rightarrow> int option) \<times> Warning list)" where
  "validateSupplyAreas stateArray supplyAreas provinces [] acc = Inr acc"
| "validateSupplyAreas stateArray supplyAreas provinces (i # is) acc =
     (case slots supplyAreas i of
        None \<Rightarrow> validateSupplyAreas stateArray supplyAreas provinces is acc
      | Some supplyArea \<Rightarrow>
          (case visitMembers stateArray supplyAreas supplyArea (astates supplyArea) acc of
             Inl e \<Rightarrow> Inl e
           | Inr (looked, m, ws) \<Rightarrow>
               (case checkStatesContiguous (List.map_filter (\<lambda>s. s) looked) provinces of
                  Inl e \<Rightarrow> Inl e
                | Inr None \<Rightarrow> validateSupplyAreas stateArray supplyAreas provinces is (m, ws)
                | Inr (Some badStates) \<Rightarrow>
                    validateSupplyAreas stateArray supplyAreas provinces is
                      (m, ws @ [notContiguousWarning i (afile supplyArea) badStates]))))"

text \<open>The second loop, \<^verbatim>\<open>for (let i = 1; i < states.length; i++)\<close>.\<close>

definition unassignedStates ::
  "State Array \<Rightarrow> (int \<Rightarrow> int option) \<Rightarrow> Warning list" where
  "unassignedStates stateArray stateToSupplyArea =
     concat (map (\<lambda>i. case slots stateArray i of
                        None \<Rightarrow> []
                      | Some state \<Rightarrow>
                          if stateToSupplyArea i = None then [noSupplyAreaWarning i (sfile state)]
                          else [])
               [1 .. len stateArray - 1])"

definition validateStatesInSupplyAreas ::
  "State Array \<Rightarrow> SupplyArea Array \<Rightarrow> (int \<Rightarrow> Province option) \<Rightarrow> int \<Rightarrow> Warning list \<Rightarrow>
   error + Warning list" where
  "validateStatesInSupplyAreas stateArray supplyAreas provinces badSupplyAreasCount warnings =
     (case validateSupplyAreas stateArray supplyAreas provinces
             [badSupplyAreasCount .. len supplyAreas - 1] (Map.empty, warnings) of
        Inl e \<Rightarrow> Inl e
      | Inr acc \<Rightarrow> Inr (snd acc @ unassignedStates stateArray (fst acc)))"

section \<open>Reload propagation between the loaders\<close>

text \<open>
  \<open>Changes\<close> is what the loaders observe when \<^verbatim>\<open>shouldReload\<close> is called: the answer of
  the default map (province) loader, whose class is in \<^verbatim>\<open>./provincemap\<close>, and for each
  folder loader the answer of the inherited \<^verbatim>\<open>super.shouldReload()\<close> (or
  \<^verbatim>\<open>super.shouldReloadImpl()\<close>) of \<^verbatim>\<open>FolderLoader\<close> in \<^verbatim>\<open>./common\<close>, which looks at the
  loader's own files. Neither class is among the sources.
\<close>

record Changes =
  defaultMapShouldReload :: bool
  stateFilesChanged :: bool
  strategicRegionFilesChanged :: bool
  supplyAreaFilesChanged :: bool

text \<open>\<^verbatim>\<open>await super.shouldReload() || await this.defaultMapLoader.shouldReload()\<close>\<close>

definition StatesLoader_shouldReload :: "Changes \<Rightarrow> bool" where
  "StatesLoader_shouldReload c \<longleftrightarrow> stateFilesChanged c \<or> defaultMapShouldReload c"

definition StrategicRegionsLoader_shouldReload :: "Changes \<Rightarrow> bool" where
  "StrategicRegionsLoader_shouldReload c \<longleftrightarrow>
     strategicRegionFilesChanged c \<or> defaultMapShouldReload c \<or> StatesLoader_shouldReload c"

definition SupplyAreasLoader_shouldReloadImpl :: "Changes \<Rightarrow> bool" where
  "SupplyAreasLoader_shouldReloadImpl c \<longleftrightarrow>
     supplyAreaFilesChanged c \<or> defaultMapShouldReload c \<or> StatesLoader_shouldReload c"

text \<open>
  Modelled from the spec: the public \<^verbatim>\<open>shouldReload\<close> of the supply areas loader is
  inherited from the loader classes of \<^verbatim>\<open>./common\<close>, which are not among the sources;
  the class overrides \<^verbatim>\<open>shouldReloadImpl\<close> only. The spec (4.1, 4.2) says that
  \<^verbatim>\<open>shouldReload\<close> is true if any tracked file changed or any declared upstream
  dependency reports it should reload, which is what \<^verbatim>\<open>shouldReloadImpl\<close> computes.
\<close>

definition SupplyAreasLoader_shouldReload :: "Changes \<Rightarrow> bool" where
  "SupplyAreasLoader_shouldReload c \<longleftrightarrow> SupplyAreasLoader_shouldReloadImpl c"

section \<open>The diff protocol of the world map session\<close>

text \<open>
  A snapshot. The values that the session compares with lodash's \<^verbatim>\<open>isEqual\<close> (deep
  equality) are of a type \<open>'v\<close> compared with \<open>=\<close>; the three item arrays are indexed
  like \<open>Array\<close> above.
\<close>

record 'v WorldMapData =
  wm_width :: int
  wm_height :: int
  wm_provincesCount :: int
  wm_statesCount :: int
  wm_countriesCount :: int
  wm_badProvincesCount :: int
  wm_badStatesCount :: int
  wm_warnings :: 'v
  wm_continents :: 'v
  wm_terrains :: 'v
  wm_provinces :: "int \<Rightarrow> 'v option"
  wm_states :: "int \<Rightarrow> 'v option"
  wm_countries :: "int \<Rightarrow> 'v option"

text \<open>The \<^verbatim>\<open>data\<close> of a change message is \<^verbatim>\<open>JSON.stringify\<close> of a value or of a slice.\<close>

datatype 'v Data = Whole 'v | Slice "'v option list"

record 'v ChangeMessage =
  command :: string
  mdata :: "'v Data"
  mstart :: int
  mend :: int

datatype 'v Posted = Progress string | Change "'v ChangeMessage" | Summary "'v WorldMapData"

text \<open>
  Modelled from the spec: \<^verbatim>\<open>slice\<close> is imported from \<^verbatim>\<open>util/common\<close>, which is not among
  the sources; the spec (6) describes the payload of a ranged message as the entries
  from \<open>start\<close> up to \<open>end\<close>.
\<close>

definition slice :: "(int \<Rightarrow> 'v option) \<Rightarrow> int \<Rightarrow> int \<Rightarrow> 'v option list" where
  "slice list a b = map list [a .. b - 1]"

definition rangeMessage :: "string \<Rightarrow> (int \<Rightarrow> 'v option) \<Rightarrow> int \<Rightarrow> int \<Rightarrow> 'v ChangeMessage" where
  "rangeMessage cmd list a b =
     \<lparr>command = cmd, mdata = Slice (slice list a b), mstart = a, mend = b\<rparr>"

definition changeMessagesCountLimit :: nat where
  "changeMessagesCountLimit = 30"

definition messageCountLimit :: int where
  "messageCountLimit = 300"

text \<open>
  The loop of \<^verbatim>\<open>fillMessageForItem\<close>, from index \<open>i\<close>; the result is the returned
  boolean and the message array, which the function extends in place.
\<close>

function fillLoop ::
  "(int \<Rightarrow> 'v option) \<Rightarrow> (int \<Rightarrow> 'v option) \<Rightarrow> string \<Rightarrow> int \<Rightarrow> int \<Rightarrow> int option \<Rightarrow>
   'v ChangeMessage list \<Rightarrow> bool \<times> 'v ChangeMessage list" where
  "fillLoop list cachedList cmd i listEnd lastDifferenceStart changeMessages =
    (if i \<le> listEnd then
       (if i = listEnd \<or> list i = cachedList i then
          (case lastDifferenceStart of
             Some l \<Rightarrow>
               (let msgs = changeMessages @ [rangeMessage cmd list l i]
                in if length msgs > changeMessagesCountLimit then (False, msgs)
                   else fillLoop list cachedList cmd (i + 1) listEnd None msgs)
           | None \<Rightarrow> fillLoop list cachedList cmd (i + 1) listEnd None changeMessages)
        else
          (case lastDifferenceStart of
             None \<Rightarrow> fillLoop list cachedList cmd (i + 1) listEnd (Some i) changeMessages
           | Some l \<Rightarrow>
               (if i - l \<ge> messageCountLimit then
                  (let msgs = changeMessages @ [rangeMessage cmd list l i]
                   in if length msgs > changeMessagesCountLimit then (False, msgs)
                      else fillLoop list cachedList cmd (i + 1) listEnd (Some i) msgs)
                else fillLoop list cachedList cmd (i + 1) listEnd (Some l) changeMessages)))
     else (True, changeMessages))"
  by pat_completeness auto

termination
  by (relation "measure (\<lambda>(list, cachedList, cmd, i, listEnd, l, msgs). nat (listEnd + 1 - i))")
     auto

declare fillLoop.simps [simp del]

definition fillMessageForItem ::
  "'v ChangeMessage list \<Rightarrow> (int \<Rightarrow> 'v option) \<Rightarrow> (int \<Rightarrow> 'v option) \<Rightarrow> string \<Rightarrow> int \<Rightarrow> int \<Rightarrow>
   bool \<times> 'v ChangeMessage list" where
  "fillMessageForItem changeMessages list cachedList cmd listStart listEnd =
     fillLoop list cachedList cmd listStart listEnd None changeMessages"

definition scalarsDiffer :: "'v WorldMapData \<Rightarrow> 'v WorldMapData \<Rightarrow> bool" where
  "scalarsDiffer cachedWorldMap worldMap \<longleftrightarrow>
     wm_width cachedWorldMap \<noteq> wm_width worldMap \<or>
     wm_height cachedWorldMap \<noteq> wm_height worldMap \<or>
     wm_provincesCount cachedWorldMap \<noteq> wm_provincesCount worldMap \<or>
     wm_statesCount cachedWorldMap \<noteq> wm_statesCount worldMap \<or>
     wm_countriesCount cachedWorldMap \<noteq> wm_countriesCount worldMap \<or>
     wm_badProvincesCount cachedWorldMap \<noteq> wm_badProvincesCount worldMap \<or>
     wm_badStatesCount cachedWorldMap \<noteq> wm_badStatesCount worldMap"

definition wholeMessage :: "string \<Rightarrow> 'v \<Rightarrow> 'v ChangeMessage" where
  "wholeMessage cmd v = \<lparr>command = cmd, mdata = Whole v, mstart = 0, mend = 0\<rparr>"

text \<open>The three wholesale comparisons of \<^verbatim>\<open>sendDifferences\<close>.\<close>

definition wholesaleMessages :: "'v WorldMapData \<Rightarrow> 'v WorldMapData \<Rightarrow> 'v ChangeMessage list" where
  "wholesaleMessages cachedWorldMap worldMap =
     (if wm_warnings cachedWorldMap \<noteq> wm_warnings worldMap
      then [wholeMessage ''warnings'' (wm_warnings worldMap)] else []) @
     (if wm_continents cachedWorldMap \<noteq> wm_continents worldMap
      then [wholeMessage ''continents'' (wm_continents worldMap)] else []) @
     (if wm_terrains cachedWorldMap \<noteq> wm_terrains worldMap
      then [wholeMessage ''terrains'' (wm_terrains worldMap)] else [])"

text \<open>
  \<^verbatim>\<open>sendDifferences\<close>: the returned boolean and the messages posted to the webview, in
  order (\<^verbatim>\<open>progressReporter\<close> posts a \<^verbatim>\<open>progress\<close> message).
\<close>

definition sendDifferences :: "'v WorldMapData \<Rightarrow> 'v WorldMapData \<Rightarrow> bool \<times> 'v Posted list" where
  "sendDifferences cachedWorldMap worldMap =
    (if scalarsDiffer cachedWorldMap worldMap then (False, [Progress ''Comparing changes...''])
     else
       (case fillMessageForItem (wholesaleMessages cachedWorldMap worldMap)
               (wm_provinces worldMap) (wm_provinces cachedWorldMap) ''provinces''
               (wm_badProvincesCount worldMap) (wm_provincesCount worldMap) of
          (False, m1) \<Rightarrow> (False, [Progress ''Comparing changes...''])
        | (True, m1) \<Rightarrow>
           (case fillMessageForItem m1 (wm_states worldMap) (wm_states cachedWorldMap) ''states''
                   (wm_badStatesCount worldMap) (wm_statesCount worldMap) of
              (False, m2) \<Rightarrow> (False, [Progress ''Comparing changes...''])
            | (True, m2) \<Rightarrow>
               (case fillMessageForItem m2 (wm_countries worldMap) (wm_countries cachedWorldMap)
                       ''countries'' 0 (wm_countriesCount worldMap) of
                  (False, m3) \<Rightarrow> (False, [Progress ''Comparing changes...''])
                | (True, m3) \<Rightarrow>
                    (True, [Progress ''Comparing changes...'', Progress ''Applying changes...'']
                           @ map Change m3 @ [Progress ''''])))))"

definition summaryOf :: "'v WorldMapData \<Rightarrow> 'v WorldMapData" where
  "summaryOf worldMap =
     worldMap\<lparr>wm_provinces := (\<lambda>i. None), wm_states := (\<lambda>i. None), wm_countries := (\<lambda>i. None)\<rparr>"

text \<open>
  \<^verbatim>\<open>sendProvinceMapSummaryToWebview\<close> after the loader has returned \<open>worldMap\<close>:
  \<open>oldCachedWorldMap\<close> is the snapshot cached before, if any. The result is what is
  posted to the webview. The \<^verbatim>\<open>catch\<close> branch, which reports a failure of the loader or of
  the webview, is not part of it.
\<close>

definition sendProvinceMapSummaryToWebview ::
  "bool \<Rightarrow> 'v WorldMapData option \<Rightarrow> 'v WorldMapData \<Rightarrow> 'v Posted list" where
  "sendProvinceMapSummaryToWebview force oldCachedWorldMap worldMap =
    (case oldCachedWorldMap of
       None \<Rightarrow> [Summary (summaryOf worldMap)]
     | Some cached \<Rightarrow>
         if force then [Summary (summaryOf worldMap)]
         else (let (sent, posted) = sendDifferences cached worldMap
               in if sent then posted else posted @ [Summary (summaryOf worldMap)]))"

section \<open>Vocabulary and examples for the properties\<close>

subsection \<open>Vocabulary for the reconciliation properties\<close>

text \<open>
  A maximal run of missing ids: every id of \<open>a..b\<close> is a hole of the array, and the run
  cannot be extended inside \<open>1..n\<close> on either side.
\<close>

definition maximalGap :: "(int \<Rightarrow> 'a option) \<Rightarrow> int \<Rightarrow> int \<Rightarrow> int \<Rightarrow> bool" where
  "maximalGap m n a b \<longleftrightarrow>
     1 \<le> a \<and> a \<le> b \<and> b \<le> n \<and> (\<forall>k\<in>{a..b}. m k = None) \<and>
     (a = 1 \<or> m (a - 1) \<noteq> None) \<and> (b = n \<or> m (b + 1) \<noteq> None)"

text \<open>The loop invariant of \<open>gapLoop\<close>: what \<^verbatim>\<open>lastNotExistStateId\<close> means at index \<open>i\<close>.\<close>

definition gapInv :: "(int \<Rightarrow> 'a option) \<Rightarrow> int \<Rightarrow> int option \<Rightarrow> bool" where
  "gapInv m i lst \<longleftrightarrow>
     (case lst of
        None \<Rightarrow> i = 1 \<or> m (i - 1) \<noteq> None
      | Some l \<Rightarrow> 1 \<le> l \<and> l < i \<and> (\<forall>k. l \<le> k \<and> k < i \<longrightarrow> m k = None) \<and>
                  (l = 1 \<or> m (l - 1) \<noteq> None))"

definition startOf :: "int \<Rightarrow> int option \<Rightarrow> int" where
  "startOf i lst = (case lst of None \<Rightarrow> i | Some l \<Rightarrow> l)"

definition textKey :: "Text \<Rightarrow> string" where
  "textKey t = (case t of Localize k as \<Rightarrow> k)"

definition isGapWarning :: "Warning \<Rightarrow> bool" where
  "isGapWarning w \<longleftrightarrow> textKey (wtext w) = ''worldmap.warnings.statenotexist''"

definition isConflict :: "Warning \<Rightarrow> bool" where
  "isConflict w \<longleftrightarrow> textKey (wtext w) = ''worldmap.warnings.stateidconflict''"

subsection \<open>Example records\<close>

definition exampleState :: "int \<Rightarrow> string \<Rightarrow> int list \<Rightarrow> StateNoBoundingBox" where
  "exampleState i f ps = \<lparr>sid = i, sname = ''S'', manpower = 0, category = ''rural'',
     sprovinces = ps, impassable = False, sfile = f\<rparr>"

definition gapExample :: "StateNoBoundingBox list" where
  "gapExample = [exampleState 1 ''a.txt'' [1], exampleState 2 ''a.txt'' [2],
                 exampleState 5 ''b.txt'' [3]]"

definition gapExampleSorted :: SortedStates where
  "gapExampleSorted =
     \<lparr>sortedStates =
        \<lparr>slots = [1 \<mapsto> exampleState 1 ''a.txt'' [1], 2 \<mapsto> exampleState 2 ''a.txt'' [2],
                  5 \<mapsto> exampleState 5 ''b.txt'' [3]],
         len = 6\<rparr>,
      badStateId = -1\<rparr>"

subsection \<open>Vocabulary and examples for conflicts and sentinel ids\<close>

text \<open>A conflict warning about the id \<open>k\<close>.\<close>

definition conflictAbout :: "int \<Rightarrow> Warning \<Rightarrow> bool" where
  "conflictAbout k w \<longleftrightarrow> wtext w = Localize ''worldmap.warnings.stateidconflict'' [Num k]"

text \<open>
  The number of records that do not keep their id when every id is -1 or positive:
  all records but one for each positive id, that is, the sentinels and the records whose
  id an earlier record has.
\<close>

definition reassigned :: "StateNoBoundingBox list \<Rightarrow> nat" where
  "reassigned xs = length xs - length (remdups (filter (\<lambda>i. i \<noteq> -1) (map sid xs)))"

text \<open>
  The invariant of the placement on such a list, after the records \<open>seen\<close>: the counter
  counts the reassigned records, the negative slots in use lie above it, and the positive
  slots in use are the ids seen.
\<close>

definition placeInv :: "Placement \<Rightarrow> StateNoBoundingBox list \<Rightarrow> bool" where
  "placeInv a seen \<longleftrightarrow>
     bad a = -1 - int (reassigned seen) \<and>
     (\<forall>n<0. res a n \<noteq> None \<longrightarrow> bad a < n) \<and>
     (\<forall>k>0. res a k \<noteq> None \<longleftrightarrow> k \<in> sid ` set seen)"

definition conflictExample :: "StateNoBoundingBox list" where
  "conflictExample = [exampleState 5 ''a.txt'' [1], exampleState 2 ''a.txt'' [2],
                      exampleState 5 ''b.txt'' [3]]"

definition conflictExampleSorted :: SortedStates where
  "conflictExampleSorted =
     \<lparr>sortedStates =
        \<lparr>slots = [5 \<mapsto> exampleState 5 ''a.txt'' [1], 2 \<mapsto> exampleState 2 ''a.txt'' [2],
                  -1 \<mapsto> exampleState (-1) ''b.txt'' [3]],
         len = 6\<rparr>,
      badStateId = -2\<rparr>"

definition zeroIdDefinition :: StateDefinition where
  "zeroIdDefinition = \<lparr>def_id = Some 0, def_name = Some ''Z'', def_manpower = None,
     def_state_category = Some ''rural'', def_provinces = [7], def_impassable = None\<rparr>"

definition negativeIdDefinition :: StateDefinition where
  "negativeIdDefinition = \<lparr>def_id = Some (-7), def_name = Some ''N'', def_manpower = None,
     def_state_category = Some ''rural'', def_provinces = [7], def_impassable = None\<rparr>"

definition zeroIdRecord :: StateNoBoundingBox where
  "zeroIdRecord = fst (loadStateDefinition ''c.txt'' zeroIdDefinition)"

definition negativeIdRecord :: StateNoBoundingBox where
  "negativeIdRecord = fst (loadStateDefinition ''c.txt'' negativeIdDefinition)"

definition sentinelExampleSorted :: SortedStates where
  "sentinelExampleSorted =
     \<lparr>sortedStates =
        \<lparr>slots = [1 \<mapsto> exampleState 1 ''a.txt'' [1], -1 \<mapsto> zeroIdRecord\<lparr>sid := -1\<rparr>], len = 2\<rparr>,
      badStateId = -2\<rparr>"

definition negativeExampleSorted :: SortedStates where
  "negativeExampleSorted =
     \<lparr>sortedStates = \<lparr>slots = [-7 \<mapsto> negativeIdRecord], len = 1\<rparr>, badStateId = -1\<rparr>"

subsection \<open>Examples for the geometry\<close>

definition exampleProvince :: "int \<Rightarrow> Zone \<Rightarrow> Province" where
  "exampleProvince i box =
     \<lparr>boundingBox = box,
      centerOfMass = \<lparr>px = of_int (zx box) + of_int (zw box) / 2,
                      py = of_int (zy box) + of_int (zh box) / 2\<rparr>,
      mass = 1, pid = i, color = i, ptype = ''land'', edges = []\<rparr>"

definition eastBox :: Zone where
  "eastBox = \<lparr>zx = 95, zy = 10, zw = 10, zh = 4\<rparr>"

definition westBox :: Zone where
  "westBox = \<lparr>zx = 2, zy = 10, zw = 3, zh = 4\<rparr>"

definition wrapProvinces :: "int \<Rightarrow> Province option" where
  "wrapProvinces = [1 \<mapsto> exampleProvince 1 eastBox, 2 \<mapsto> exampleProvince 2 westBox]"

definition exampleRegion :: StrategicRegionNoRegion where
  "exampleRegion = \<lparr>rid = 1, rname = ''R'', rprovinces = [7], navalTerrain = None,
                    rfile = ''r.txt''\<rparr>"

subsection \<open>Vocabulary for the validators\<close>

text \<open>A warning that names the province \<open>p\<close>, or the state \<open>s\<close>, among its sources.\<close>

definition aboutProvince :: "int \<Rightarrow> Warning \<Rightarrow> bool" where
  "aboutProvince p w \<longleftrightarrow> list_ex (\<lambda>s. wtype s = ''province'' \<and> wid s = p) (wsource w)"

definition aboutState :: "int \<Rightarrow> Warning \<Rightarrow> bool" where
  "aboutState s w \<longleftrightarrow> list_ex (\<lambda>x. wtype x = ''state'' \<and> wid x = s) (wsource w)"

text \<open>
  Every record of the array sits at the index that is its id; every owner in the
  reverse map is a record of the array.
\<close>

definition wellIndexed :: "'a StateNoBoundingBox_scheme Array \<Rightarrow> bool" where
  "wellIndexed arr \<longleftrightarrow> (\<forall>k s. slots arr k = Some s \<longrightarrow> sid s = k)"

definition ownersExist :: "State Array \<Rightarrow> (int \<Rightarrow> int option) \<Rightarrow> bool" where
  "ownersExist arr m \<longleftrightarrow> (\<forall>q owner. m q = Some owner \<longrightarrow> slots arr owner \<noteq> None)"

subsection \<open>Examples for the validators\<close>

definition duplicateMember :: State where
  "duplicateMember = withRegion (exampleState 3 ''s.txt'' [1]) zeroRegion"

definition exampleArea :: "int \<Rightarrow> string \<Rightarrow> int list \<Rightarrow> SupplyArea" where
  "exampleArea i f ss = \<lparr>aid = i, aname = ''A'', avalue = 0, astates = ss, afile = f,
                          aregion = zeroRegion\<rparr>"

definition landBox :: Zone where
  "landBox = \<lparr>zx = 10, zy = 10, zw = 4, zh = 4\<rparr>"

definition danglingProvinces :: "int \<Rightarrow> Province option" where
  "danglingProvinces = [1 \<mapsto> exampleProvince 1 landBox, 2 \<mapsto> exampleProvince 2 landBox]"

definition danglingStates :: "State Array" where
  "danglingStates =
     \<lparr>slots = [1 \<mapsto> withRegion (exampleState 1 ''a.txt'' [1, 9]) zeroRegion,
               2 \<mapsto> withRegion (exampleState 2 ''b.txt'' [2, 9]) zeroRegion],
      len = 3\<rparr>"

definition danglingAreas :: "SupplyArea Array" where
  "danglingAreas =
     \<lparr>slots = [1 \<mapsto> exampleArea 1 ''x.txt'' [1, 8], 2 \<mapsto> exampleArea 2 ''y.txt'' [2, 8]],
      len = 3\<rparr>"

subsection \<open>Vocabulary and example for shared provinces\<close>

text \<open>The state that \<open>calculateBoundingBox\<close> returns, whatever the warnings.\<close>

definition stateGeometry ::
  "(Province list \<Rightarrow> int \<Rightarrow> Region) \<Rightarrow> (int \<Rightarrow> Province option) \<Rightarrow> int \<Rightarrow> StateNoBoundingBox \<Rightarrow> State" where
  "stateGeometry mr provinces width s =
     withRegion s (if List.map_filter provinces (sprovinces s) = [] then zeroRegion
                   else mr (List.map_filter provinces (sprovinces s)) width)"

definition sharedProvinces :: "int \<Rightarrow> Province option" where
  "sharedProvinces = [5 \<mapsto> exampleProvince 5 landBox]"

definition sharedFiles :: "(StateNoBoundingBox list \<times> Warning list) list" where
  "sharedFiles = [([exampleState 1 ''a.txt'' [5]], []), ([exampleState 2 ''b.txt'' [5]], [])]"

definition sharedSorted :: SortedStates where
  "sharedSorted =
     \<lparr>sortedStates =
        \<lparr>slots = [1 \<mapsto> exampleState 1 ''a.txt'' [5], 2 \<mapsto> exampleState 2 ''b.txt'' [5]],
         len = 3\<rparr>,
      badStateId = -1\<rparr>"

definition sharedRegion :: Region where
  "sharedRegion = \<lparr>boundingBox = landBox, centerOfMass = \<lparr>px = 12, py = 12\<rparr>, mass = 1\<rparr>"

definition sharedResult :: StateLoaderResult where
  "sharedResult =
     \<lparr>loadedStates =
        \<lparr>slots = [1 \<mapsto> withRegion (exampleState 1 ''a.txt'' [5]) sharedRegion,
                  2 \<mapsto> withRegion (exampleState 2 ''b.txt'' [5]) sharedRegion],
         len = 3\<rparr>,
      badStatesCount = 0\<rparr>"

text \<open>
  Two files whose states both list province 5, the first with the raw id -7. The
  reconciliation of \<^verbatim>\<open>states.ts\<close> leaves it at index -7, below \<open>badStateId + 1 = 0\<close>.
\<close>

definition unvisitedFiles :: "(StateNoBoundingBox list \<times> Warning list) list" where
  "unvisitedFiles = [([exampleState (-7) ''a.txt'' [5]], []), ([exampleState 1 ''b.txt'' [5]], [])]"

definition unvisitedResult :: StateLoaderResult where
  "unvisitedResult =
     \<lparr>loadedStates =
        \<lparr>slots = [1 \<mapsto> withRegion (exampleState 1 ''b.txt'' [5]) sharedRegion], len = 2\<rparr>,
      badStatesCount = 0\<rparr>"

subsection \<open>Example for reload propagation\<close>

definition provinceFileChanged :: Changes where
  "provinceFileChanged = \<lparr>defaultMapShouldReload = True, stateFilesChanged = False,
     strategicRegionFilesChanged = False, supplyAreaFilesChanged = False\<rparr>"

subsection \<open>What a comparison would queue\<close>

text \<open>
  The comparison without the budget of 30: index by index, a run of consecutive changed
  entries becomes one ranged message, flushed early once it is 300 entries long.
\<close>

function rangeLoop ::
  "(int \<Rightarrow> 'v option) \<Rightarrow> (int \<Rightarrow> 'v option) \<Rightarrow> string \<Rightarrow> int \<Rightarrow> int \<Rightarrow> int option \<Rightarrow>
   'v ChangeMessage list \<Rightarrow> 'v ChangeMessage list" where
  "rangeLoop list cachedList cmd i listEnd lastDifferenceStart changeMessages =
    (if i \<le> listEnd then
       (if i = listEnd \<or> list i = cachedList i then
          (case lastDifferenceStart of
             Some l \<Rightarrow> rangeLoop list cachedList cmd (i + 1) listEnd None
                         (changeMessages @ [rangeMessage cmd list l i])
           | None \<Rightarrow> rangeLoop list cachedList cmd (i + 1) listEnd None changeMessages)
        else
          (case lastDifferenceStart of
             None \<Rightarrow> rangeLoop list cachedList cmd (i + 1) listEnd (Some i) changeMessages
           | Some l \<Rightarrow>
               (if i - l \<ge> messageCountLimit then
                  rangeLoop list cachedList cmd (i + 1) listEnd (Some i)
                    (changeMessages @ [rangeMessage cmd list l i])
                else rangeLoop list cachedList cmd (i + 1) listEnd (Some l) changeMessages)))
     else changeMessages)"
  by pat_completeness auto

termination
  by (relation "measure (\<lambda>(list, cachedList, cmd, i, listEnd, l, msgs). nat (listEnd + 1 - i))")
     auto

declare rangeLoop.simps [simp del]

definition wouldQueue :: "'v WorldMapData \<Rightarrow> 'v WorldMapData \<Rightarrow> 'v ChangeMessage list" where
  "wouldQueue cachedWorldMap worldMap =
     rangeLoop (wm_countries worldMap) (wm_countries cachedWorldMap) ''countries''
       0 (wm_countriesCount worldMap) None
       (rangeLoop (wm_states worldMap) (wm_states cachedWorldMap) ''states''
          (wm_badStatesCount worldMap) (wm_statesCount worldMap) None
          (rangeLoop (wm_provinces worldMap) (wm_provinces cachedWorldMap) ''provinces''
             (wm_badProvincesCount worldMap) (wm_provincesCount worldMap) None
             (wholesaleMessages cachedWorldMap worldMap)))"

text \<open>One iteration of either loop: the new start of the pending run and what is pushed.\<close>

definition diffStep ::
  "(int \<Rightarrow> 'v option) \<Rightarrow> (int \<Rightarrow> 'v option) \<Rightarrow> string \<Rightarrow> int \<Rightarrow> int \<Rightarrow> int option \<Rightarrow>
   int option \<times> 'v ChangeMessage list" where
  "diffStep list cached cmd i e l =
     (if i = e \<or> list i = cached i then
        (case l of Some x \<Rightarrow> (None, [rangeMessage cmd list x i]) | None \<Rightarrow> (None, []))
      else
        (case l of
           None \<Rightarrow> (Some i, [])
         | Some x \<Rightarrow> if i - x \<ge> messageCountLimit then (Some i, [rangeMessage cmd list x i])
                     else (Some x, [])))"

definition newSnapshot :: "int WorldMapData" where
  "newSnapshot =
     \<lparr>wm_width = 100, wm_height = 50, wm_provincesCount = 62, wm_statesCount = 0,
      wm_countriesCount = 0, wm_badProvincesCount = 0, wm_badStatesCount = 0,
      wm_warnings = 0, wm_continents = 0, wm_terrains = 0,
      wm_provinces = (\<lambda>i. if 0 \<le> i \<and> i < 62 then Some i else None),
      wm_states = (\<lambda>i. None), wm_countries = (\<lambda>i. None)\<rparr>"

definition oldSnapshot :: "int WorldMapData" where
  "oldSnapshot =
     newSnapshot\<lparr>wm_provinces :=
       (\<lambda>i. if 0 \<le> i \<and> i < 62 then Some (if even i then i + 1000 else i) else None)\<rparr>"

subsection \<open>Vocabulary for contiguity\<close>

text \<open>
  The members reached from \<open>start\<close>: a member \<open>s\<close> is reached from a reached member \<open>c\<close>
  when some province of \<open>s\<close> has an edge that is not impassable to an existing province
  of \<open>c\<close>.
\<close>

inductive_set reachedFrom :: "State list \<Rightarrow> (int \<Rightarrow> Province option) \<Rightarrow> State \<Rightarrow> State set"
  for states :: "State list" and provinces :: "int \<Rightarrow> Province option" and start :: State where
  start: "start \<in> reachedFrom states provinces start"
| step: "c \<in> reachedFrom states provinces start \<Longrightarrow> s \<in> set states \<Longrightarrow>
         statesAreAdjacent s c provinces \<Longrightarrow> s \<in> reachedFrom states provinces start"

text \<open>The invariant of the search: what the stack and the key list hold.\<close>

definition searchInv ::
  "State list \<Rightarrow> (int \<Rightarrow> Province option) \<Rightarrow> State \<Rightarrow> State list \<Rightarrow> int list \<Rightarrow> bool" where
  "searchInv states provinces s0 stack accessed \<longleftrightarrow>
     set stack \<subseteq> reachedFrom states provinces s0 \<and>
     sid ` set stack \<subseteq> set accessed \<and>
     set accessed \<subseteq> sid ` reachedFrom states provinces s0 \<and>
     sid s0 \<in> set accessed \<and>
     distinct accessed \<and>
     (\<forall>c\<in>set states. sid c \<in> set accessed \<longrightarrow>
        c \<in> set stack \<or> (\<forall>s\<in>set states. statesAreAdjacent s c provinces \<longrightarrow> sid s \<in> set accessed))"

section \<open>Verified properties\<close>

subsection \<open>The gap loop\<close>

lemma gapLoop_append:
  "gapLoop m i n lst ws = ws @ gapLoop m i n lst []"
proof (induction "nat (n + 1 - i)" arbitrary: i lst ws)
  case 0
  then show ?case by (simp add: gapLoop.simps)
next
  case (Suc k)
  then have le: "i \<le> n" and k: "k = nat (n + 1 - (i + 1))" by linarith+
  note IH = Suc.hyps(1)[OF k]
  show ?case
    using le IH[of None "ws @ [gapWarning l i]" for l] IH[of None "[gapWarning l i]" for l]
      IH[of None ws] IH[of "Some l" ws for l]
    by (subst (1 2) gapLoop.simps) (simp split: option.splits)
qed

lemma gapLoop_step:
  "i \<le> n \<Longrightarrow> gapLoop m i n lst [] =
     (case m i of
        Some s \<Rightarrow> (case lst of Some l \<Rightarrow> gapWarning l i # gapLoop m (i + 1) n None []
                              | None \<Rightarrow> gapLoop m (i + 1) n None [])
      | None \<Rightarrow> (case lst of None \<Rightarrow> gapLoop m (i + 1) n (Some i) []
                           | Some l \<Rightarrow> gapLoop m (i + 1) n (Some l) []))"
  using gapLoop_append[of m "i + 1" n None "[gapWarning l i]" for l]
  by (subst gapLoop.simps) (simp split: option.splits)

lemma gapLoop_done: "n < i \<Longrightarrow> gapLoop m i n lst ws = ws"
  by (subst gapLoop.simps) simp

lemma maximalGap_closed:
  assumes "gapInv m i (Some l)" "m i \<noteq> None" "i \<le> n"
  shows "maximalGap m n l (i - 1)"
  using assms unfolding gapInv_def maximalGap_def by auto

lemma maximalGap_from:
  assumes "gapInv m i (Some l)" "m i \<noteq> None" "maximalGap m n a b" "l \<le> a" "i \<le> n"
  shows "(a = l \<and> b = i - 1) \<or> i + 1 \<le> a"
proof (cases "a < i")
  case True
  have al: "a = l"
  proof (rule ccontr)
    assume "a \<noteq> l"
    then have "l \<le> a - 1" "a - 1 < i" "a \<noteq> 1" using assms True by (auto simp: gapInv_def)
    then show False using assms by (auto simp: gapInv_def maximalGap_def)
  qed
  have bi: "b < i"
  proof (rule ccontr)
    assume "\<not> b < i"
    then have "i \<in> {a..b}" using True by simp
    then show False using assms by (auto simp: maximalGap_def)
  qed
  have "b = i - 1"
  proof (rule ccontr)
    assume "b \<noteq> i - 1"
    then have "l \<le> b + 1" "b + 1 < i" using bi al assms by (auto simp: maximalGap_def)
    then have "m (b + 1) = None" using assms by (auto simp: gapInv_def)
    moreover have "b \<noteq> n" using bi assms by simp
    ultimately show False using assms by (auto simp: maximalGap_def)
  qed
  with al show ?thesis by simp
next
  case False
  have "a \<noteq> i" using assms by (auto simp: maximalGap_def)
  with False show ?thesis by simp
qed

lemma gapLoop_set:
  assumes "1 \<le> i" "i \<le> n + 1" "1 \<le> n \<longrightarrow> m n \<noteq> None" "gapInv m i lst"
  shows "set (gapLoop m i n lst []) =
         {gapWarning a (b + 1) | a b. maximalGap m n a b \<and> startOf i lst \<le> a}"
  using assms
proof (induction "nat (n + 1 - i)" arbitrary: i lst)
  case 0
  then have "i = n + 1" by linarith
  then show ?case using 0
    by (subst gapLoop.simps)
       (auto simp: gapInv_def maximalGap_def startOf_def split: option.splits)
next
  case (Suc k)
  then have le: "i \<le> n" and k: "k = nat (n + 1 - (i + 1))" by linarith+
  have i1: "1 \<le> i + 1" "i + 1 \<le> n + 1" using Suc.prems le by simp_all
  note IH = Suc.hyps(1)[OF k i1 Suc.prems(3)]
  show ?case
  proof (cases "m i")
    case None
    show ?thesis
    proof (cases lst)
      case N: None
      have inv: "gapInv m (i + 1) (Some i)"
        using Suc.prems None N by (auto simp: gapInv_def)
      show ?thesis using IH[OF inv] le None N
        by (simp add: gapLoop_step startOf_def)
    next
      case (Some l)
      have "\<And>k. k < i + 1 \<Longrightarrow> k < i \<or> k = i" by linarith
      then have inv: "gapInv m (i + 1) (Some l)"
        using Suc.prems(4) None unfolding Some gapInv_def by (simp del: zless_add1_eq) blast
      show ?thesis using IH[OF inv] le None Some
        by (simp add: gapLoop_step startOf_def)
    qed
  next
    case (Some s)
    have inv: "gapInv m (i + 1) None" using Some by (simp add: gapInv_def)
    show ?thesis
    proof (cases lst)
      case None
      have "\<And>a b. maximalGap m n a b \<Longrightarrow> a \<noteq> i"
        using Some by (auto simp: maximalGap_def)
      then have "\<And>a b. maximalGap m n a b \<Longrightarrow> (i \<le> a) = (i + 1 \<le> a)" by force
      then show ?thesis using IH[OF inv] le Some None
        by (auto simp add: gapLoop_step startOf_def)
    next
      case L: (Some l)
      have mi: "m i \<noteq> None" using Some by simp
      have g: "gapInv m i (Some l)" using Suc.prems L by simp
      have c: "maximalGap m n l (i - 1)" by (rule maximalGap_closed[OF g mi le])
      have f: "\<And>a b. maximalGap m n a b \<Longrightarrow> l \<le> a \<Longrightarrow> (a = l \<and> b = i - 1) \<or> i + 1 \<le> a"
        using maximalGap_from[OF g mi _ _ le] by blast
      have li: "l < i" using g by (simp add: gapInv_def)
      have "{gapWarning a (b + 1) | a b. maximalGap m n a b \<and> l \<le> a} =
            insert (gapWarning l i) {gapWarning a (b + 1) | a b. maximalGap m n a b \<and> i + 1 \<le> a}"
        (is "?A = insert ?g ?B")
      proof (intro set_eqI iffI)
        fix w assume "w \<in> ?A"
        then obtain a b where w: "w = gapWarning a (b + 1)" and ab: "maximalGap m n a b" "l \<le> a"
          by blast
        from f[OF ab] show "w \<in> insert ?g ?B"
        proof
          assume "a = l \<and> b = i - 1"
          then show ?thesis using w by simp
        next
          assume "i + 1 \<le> a"
          then show ?thesis using w ab by blast
        qed
      next
        fix w assume "w \<in> insert ?g ?B"
        then consider "w = ?g" | "w \<in> ?B" by blast
        then show "w \<in> ?A"
        proof cases
          case 1
          then have "w = gapWarning l ((i - 1) + 1)" by simp
          then show ?thesis using c by blast
        next
          case 2
          then obtain a b where "w = gapWarning a (b + 1)" "maximalGap m n a b" "i + 1 \<le> a"
            by blast
          moreover then have "l \<le> a" using li by simp
          ultimately show ?thesis by blast
        qed
      qed
      then show ?thesis using IH[OF inv] le Some L
        by (simp add: gapLoop_step startOf_def)
    qed
  qed
qed


lemma gapWarning_inj: "gapWarning l i = gapWarning l' j \<Longrightarrow> i = j"
  by (simp add: gapWarning_def src_def)

lemma gapLoop_sources:
  "w \<in> set (gapLoop m i n lst []) \<Longrightarrow> \<exists>l j. w = gapWarning l j \<and> i \<le> j"
proof (induction "nat (n + 1 - i)" arbitrary: i lst)
  case 0
  then have "n < i" by linarith
  with 0 show ?case by (simp add: gapLoop_done)
next
  case (Suc k)
  then have le: "i \<le> n" and k: "k = nat (n + 1 - (i + 1))" by linarith+
  note IH = Suc.hyps(1)[OF k]
  from Suc.prems le show ?case
    by (auto simp: gapLoop_step split: option.splits dest!: IH) force+
qed

lemma gapLoop_distinct: "distinct (gapLoop m i n lst [])"
proof (induction "nat (n + 1 - i)" arbitrary: i lst)
  case 0
  then have "n < i" by linarith
  then show ?case by (simp add: gapLoop_done)
next
  case (Suc k)
  then have le: "i \<le> n" and k: "k = nat (n + 1 - (i + 1))" by linarith+
  note IH = Suc.hyps(1)[OF k]
  have "gapWarning l i \<notin> set (gapLoop m (i + 1) n None [])" for l
    using gapLoop_sources[of "gapWarning l i" m "i + 1" n None] gapWarning_inj by fastforce
  with le IH show ?case
    by (auto simp: gapLoop_step split: option.splits)
qed

lemma count_list_distinct:
  "distinct xs \<Longrightarrow> count_list xs x = (if x \<in> set xs then 1 else 0)"
  by (induction xs) auto

lemma place_keeps: "res a k \<noteq> None \<Longrightarrow> res (place p a) k \<noteq> None"
  by (auto simp: place_def Let_def split: option.splits)

lemma place_occupies: "sid p \<noteq> -1 \<Longrightarrow> res (place p a) (sid p) \<noteq> None"
  by (auto simp: place_def Let_def split: option.splits)

lemma placeAll_Nil: "placeAll [] a = a"
  by (simp add: placeAll_def)

lemma placeAll_Cons: "placeAll (q # qs) a = placeAll qs (place q a)"
  by (simp add: placeAll_def)

lemma placeAll_append: "placeAll (xs @ ys) a = placeAll ys (placeAll xs a)"
  by (simp add: placeAll_def)

lemma placeAll_keeps: "res a k \<noteq> None \<Longrightarrow> res (placeAll states a) k \<noteq> None"
proof (induction states arbitrary: a)
  case Nil
  then show ?case by (simp add: placeAll_Nil)
next
  case (Cons q qs)
  show ?case using Cons.IH[OF place_keeps[OF Cons.prems]] by (simp add: placeAll_Cons)
qed

lemma placeAll_occupies:
  "p \<in> set states \<Longrightarrow> sid p \<noteq> -1 \<Longrightarrow> res (placeAll states a) (sid p) \<noteq> None"
proof (induction states arbitrary: a)
  case Nil
  then show ?case by simp
next
  case (Cons q qs)
  show ?case
  proof (cases "p = q")
    case True
    then show ?thesis
      using placeAll_keeps[OF place_occupies[OF Cons.prems(2)], of qs a]
      by (simp add: placeAll_Cons)
  next
    case False
    then show ?thesis using Cons by (simp add: placeAll_Cons)
  qed
qed

lemma maxStateId_mem: "foldl (\<lambda>p c. if sid c > p then sid c else p) z states \<in> insert z (sid ` set states)"
  by (induction states arbitrary: z) (auto split: if_splits)

lemma maxStateId_ge: "z \<le> foldl (\<lambda>p c. if sid c > p then sid c else p) z (states :: ('a StateNoBoundingBox_scheme) list)"
proof (induction states arbitrary: z)
  case Nil
  then show ?case by simp
next
  case (Cons q qs)
  show ?case using Cons[of "if sid q > z then sid q else z"] by (auto split: if_splits)
qed

lemma placeAll_max:
  assumes "1 \<le> maxStateId states"
  shows "res (placeAll states a) (maxStateId states) \<noteq> None"
proof -
  have "maxStateId states \<in> insert 0 (sid ` set states)"
    unfolding maxStateId_def by (rule maxStateId_mem)
  with assms obtain p where "p \<in> set states" "sid p = maxStateId states" by auto
  then show ?thesis using placeAll_occupies[of p states a] assms by auto
qed

lemma place_warns: "\<exists>cs. warns (place p a) = warns a @ cs \<and> (\<forall>w\<in>set cs. isConflict w)"
  by (auto simp: place_def Let_def isConflict_def conflictWarning_def textKey_def split: option.splits)

lemma placeAll_warns:
  "\<exists>cs. warns (placeAll states a) = warns a @ cs \<and> (\<forall>w\<in>set cs. isConflict w)"
proof (induction states arbitrary: a)
  case Nil
  then show ?case by (simp add: placeAll_Nil)
next
  case (Cons q qs)
  obtain c1 where c1: "warns (place q a) = warns a @ c1" "\<forall>w\<in>set c1. isConflict w"
    using place_warns by blast
  obtain c2 where c2: "warns (placeAll qs (place q a)) = warns (place q a) @ c2"
     "\<forall>w\<in>set c2. isConflict w"
    using Cons by blast
  have "warns (placeAll (q # qs) a) = warns a @ (c1 @ c2)" using c1 c2 by (simp add: placeAll_Cons)
  moreover have "\<forall>w\<in>set (c1 @ c2). isConflict w" using c1 c2 by auto
  ultimately show ?case by blast
qed


lemma gapWarning_eq_iff: "gapWarning a i = gapWarning a' j \<longleftrightarrow> a = a' \<and> i = j"
  by (auto simp: gapWarning_def src_def split: if_splits)

lemma isConflict_not_gap: "isConflict w \<Longrightarrow> \<not> isGapWarning w"
  by (auto simp: isConflict_def isGapWarning_def)

lemma isGapWarning_gapWarning: "isGapWarning (gapWarning a i)"
  by (simp add: isGapWarning_def gapWarning_def textKey_def)

lemma sortStates_warnings:
  assumes "sortStates states ws = Inr (r, ws')"
  shows "\<exists>cs. ws' = ws @ cs @ gapLoop (slots (sortedStates r)) 1 (maxStateId states) None [] \<and>
              (\<forall>w\<in>set cs. isConflict w)"
proof -
  let ?a = "placeAll states \<lparr>res = Map.empty, bad = -1, warns = ws\<rparr>"
  from assms have r: "slots (sortedStates r) = res ?a"
    and w: "ws' = gapLoop (res ?a) 1 (maxStateId states) None (warns ?a)"
    by (auto simp: sortStates_def Let_def split: if_splits)
  obtain cs where cs: "warns ?a = ws @ cs" "\<forall>w\<in>set cs. isConflict w"
    using placeAll_warns[of states "\<lparr>res = Map.empty, bad = -1, warns = ws\<rparr>"] by auto
  have "ws' = ws @ cs @ gapLoop (res ?a) 1 (maxStateId states) None []"
    using w cs gapLoop_append[of "res ?a" 1 "maxStateId states" None "warns ?a"] by simp
  with r cs show ?thesis by auto
qed

lemma sortStates_gaps:
  assumes "sortStates states ws = Inr (r, ws')"
  shows "set (gapLoop (slots (sortedStates r)) 1 (maxStateId states) None []) =
         {gapWarning a (b + 1) | a b. maximalGap (slots (sortedStates r)) (maxStateId states) a b}"
proof -
  let ?a = "placeAll states \<lparr>res = Map.empty, bad = -1, warns = ws\<rparr>"
  let ?n = "maxStateId states"
  from assms have r: "slots (sortedStates r) = res ?a"
    by (auto simp: sortStates_def Let_def split: if_splits)
  have n0: "0 \<le> ?n" unfolding maxStateId_def by (rule maxStateId_ge)
  have "set (gapLoop (res ?a) 1 ?n None []) =
        {gapWarning a (b + 1) | a b. maximalGap (res ?a) ?n a b \<and> startOf 1 None \<le> a}"
    by (rule gapLoop_set) (use n0 placeAll_max in \<open>auto simp: gapInv_def\<close>)
  moreover have "maximalGap (res ?a) ?n a b \<and> startOf 1 None \<le> a \<longleftrightarrow> maximalGap (res ?a) ?n a b"
    for a b by (auto simp: maximalGap_def startOf_def)
  ultimately show ?thesis unfolding r by simp
qed

lemma gapWarning_fields:
  "gapWarning a (b + 1) =
     \<lparr>wsource = [src ''state'' (b + 1)], relatedFiles = [],
      wtext = Localize ''worldmap.warnings.statenotexist''
                [if a = b then Num a else Span a b]\<rparr>"
  by (simp add: gapWarning_def)

lemma gapWarning_inj_runs:
  "inj_on (\<lambda>(a, b). gapWarning a (b + 1)) A"
  by (auto simp: inj_on_def gapWarning_eq_iff)

lemma sortStates_gap_count:
  assumes "sortStates states ws = Inr (r, ws')"
  shows "(\<forall>a b. count_list (drop (length ws) ws') (gapWarning a (b + 1)) =
            (if maximalGap (slots (sortedStates r)) (maxStateId states) a b then 1 else 0)) \<and>
         (\<forall>w\<in>set (drop (length ws) ws'). isGapWarning w \<longrightarrow>
            (\<exists>a b. maximalGap (slots (sortedStates r)) (maxStateId states) a b \<and>
                   w = gapWarning a (b + 1))) \<and>
         length (filter isGapWarning (drop (length ws) ws')) =
           card {(a, b). maximalGap (slots (sortedStates r)) (maxStateId states) a b}"
proof -
  let ?G = "gapLoop (slots (sortedStates r)) 1 (maxStateId states) None []"
  let ?R = "{(a, b). maximalGap (slots (sortedStates r)) (maxStateId states) a b}"
  obtain cs where cs: "ws' = ws @ cs @ ?G" "\<forall>w\<in>set cs. isConflict w"
    using sortStates_warnings[OF assms] by blast
  have new: "drop (length ws) ws' = cs @ ?G" using cs by simp
  have G: "set ?G = {gapWarning a (b + 1) | a b.
                      maximalGap (slots (sortedStates r)) (maxStateId states) a b}"
    by (rule sortStates_gaps[OF assms])
  have c0: "count_list cs (gapWarning a i) = 0" for a i
    using cs(2) isConflict_not_gap isGapWarning_gapWarning by (auto simp: count_list_0_iff)
  have dG: "distinct ?G" by (rule gapLoop_distinct)
  have one: "count_list (cs @ ?G) (gapWarning a (b + 1)) =
          (if maximalGap (slots (sortedStates r)) (maxStateId states) a b then 1 else 0)" for a b
  proof -
    have "gapWarning a (b + 1) \<in> set ?G \<longleftrightarrow>
          maximalGap (slots (sortedStates r)) (maxStateId states) a b"
      unfolding G by (auto simp: gapWarning_eq_iff)
    then show ?thesis
      using c0 count_list_distinct[OF dG] by simp
  qed
  have only: "\<exists>a b. maximalGap (slots (sortedStates r)) (maxStateId states) a b \<and>
                   w = gapWarning a (b + 1)"
    if "w \<in> set (cs @ ?G)" "isGapWarning w" for w
  proof -
    from that cs(2) isConflict_not_gap have "w \<in> set ?G" by auto
    then show ?thesis unfolding G by blast
  qed
  have "filter isGapWarning cs = []"
    using cs(2) isConflict_not_gap by (auto simp: filter_empty_conv)
  moreover have "filter isGapWarning ?G = ?G"
    unfolding G filter_id_conv using G isGapWarning_gapWarning by auto
  ultimately have "length (filter isGapWarning (cs @ ?G)) = length ?G" by simp
  also have "\<dots> = card (set ?G)" using dG by (simp add: distinct_card)
  also have "set ?G = (\<lambda>(a, b). gapWarning a (b + 1)) ` ?R" unfolding G by auto
  also have "card ((\<lambda>(a, b). gapWarning a (b + 1)) ` ?R) = card ?R"
    by (rule card_image) (rule gapWarning_inj_runs)
  finally have total: "length (filter isGapWarning (cs @ ?G)) = card ?R" .
  from one only total show ?thesis unfolding new by blast
qed

text \<open>
  C4. After placement, every maximal run \<open>a..b\<close> of ids in \<open>1..maxStateId\<close> without a
  record produces exactly one gap warning: it is pushed when the loop reaches \<open>b + 1\<close>, the
  id of its source, it has no related file, and its text names the whole run, the id \<open>a\<close>
  alone when the run is the single id \<open>a\<close> and the range \<open>a-b\<close> otherwise. No other pair of
  ids produces that warning, every gap warning that \<open>sortStates\<close> pushes is the warning of
  such a run, and there are as many gap warnings as maximal runs.
\<close>

theorem sortStates_gap_coalescing:
  assumes "sortStates states ws = Inr (r, ws')"
  shows "(\<forall>a b. count_list (drop (length ws) ws')
             \<lparr>wsource = [src ''state'' (b + 1)], relatedFiles = [],
              wtext = Localize ''worldmap.warnings.statenotexist''
                        [if a = b then Num a else Span a b]\<rparr> =
            (if maximalGap (slots (sortedStates r)) (maxStateId states) a b then 1 else 0)) \<and>
         (\<forall>w\<in>set (drop (length ws) ws'). isGapWarning w \<longrightarrow>
            (\<exists>a b. maximalGap (slots (sortedStates r)) (maxStateId states) a b \<and>
                   wsource w = [src ''state'' (b + 1)] \<and> relatedFiles w = [] \<and>
                   wtext w = Localize ''worldmap.warnings.statenotexist''
                               [if a = b then Num a else Span a b])) \<and>
         length (filter isGapWarning (drop (length ws) ws')) =
           card {(a, b). maximalGap (slots (sortedStates r)) (maxStateId states) a b}"
proof -
  note c = sortStates_gap_count[OF assms]
  have one: "count_list (drop (length ws) ws')
             \<lparr>wsource = [src ''state'' (b + 1)], relatedFiles = [],
              wtext = Localize ''worldmap.warnings.statenotexist''
                        [if a = b then Num a else Span a b]\<rparr> =
            (if maximalGap (slots (sortedStates r)) (maxStateId states) a b then 1 else 0)" for a b
    using c unfolding gapWarning_fields by blast
  have only: "\<exists>a b. maximalGap (slots (sortedStates r)) (maxStateId states) a b \<and>
                   wsource w = [src ''state'' (b + 1)] \<and> relatedFiles w = [] \<and>
                   wtext w = Localize ''worldmap.warnings.statenotexist''
                               [if a = b then Num a else Span a b]"
    if w: "w \<in> set (drop (length ws) ws')" "isGapWarning w" for w
  proof -
    from c w obtain a b where ab: "maximalGap (slots (sortedStates r)) (maxStateId states) a b"
      "w = gapWarning a (b + 1)" by blast
    have "wsource w = [src ''state'' (b + 1)] \<and> relatedFiles w = [] \<and>
          wtext w = Localize ''worldmap.warnings.statenotexist''
                      [if a = b then Num a else Span a b]"
      unfolding ab(2) gapWarning_fields by simp
    with ab(1) show ?thesis by blast
  qed
  from one only c show ?thesis by blast
qed

theorem sortStates_gap_coalescing_witness:
  "sortStates gapExample [] =
     Inr (gapExampleSorted,
          [\<lparr>wsource = [src ''state'' 5], relatedFiles = [],
            wtext = Localize ''worldmap.warnings.statenotexist'' [Span 3 4]\<rparr>]) \<and>
   maximalGap (slots (sortedStates gapExampleSorted)) (maxStateId gapExample) 3 4 \<and>
   count_list
     [\<lparr>wsource = [src ''state'' 5], relatedFiles = [],
       wtext = Localize ''worldmap.warnings.statenotexist'' [Span 3 4]\<rparr>]
     \<lparr>wsource = [src ''state'' (4 + 1)], relatedFiles = [],
      wtext = Localize ''worldmap.warnings.statenotexist''
                [if (3::int) = 4 then Num 3 else Span 3 4]\<rparr> = 1 \<and>
   card {(a, b). maximalGap (slots (sortedStates gapExampleSorted)) (maxStateId gapExample) a b}
     = 1"
proof -
  have run: "sortStates gapExample [] =
     Inr (gapExampleSorted,
          [\<lparr>wsource = [src ''state'' 5], relatedFiles = [],
            wtext = Localize ''worldmap.warnings.statenotexist'' [Span 3 4]\<rparr>])"
    by (simp add: sortStates_def gapExample_def gapExampleSorted_def maxStateId_def
        exampleState_def placeAll_def place_def gapLoop.simps gapWarning_def)
  have gap: "maximalGap (slots (sortedStates gapExampleSorted)) (maxStateId gapExample) 3 4"
    by (simp add: maximalGap_def gapExample_def gapExampleSorted_def maxStateId_def
        exampleState_def)
  note c = sortStates_gap_coalescing[OF run]
  from c have
    "length (filter isGapWarning
       [\<lparr>wsource = [src ''state'' 5], relatedFiles = [],
         wtext = Localize ''worldmap.warnings.statenotexist'' [Span 3 4]\<rparr>]) =
     card {(a, b). maximalGap (slots (sortedStates gapExampleSorted)) (maxStateId gapExample) a b}"
    by simp
  then have total:
    "card {(a, b). maximalGap (slots (sortedStates gapExampleSorted)) (maxStateId gapExample) a b}
       = 1"
    by (simp add: isGapWarning_def textKey_def)
  from run gap total show ?thesis by simp
qed

subsection \<open>Placement: conflicts and sentinel ids\<close>

lemma place_bad_le: "bad (place x a) \<le> bad a"
  by (auto simp: place_def Let_def split: option.splits)

lemma placeAll_bad_le: "bad (placeAll xs a) \<le> bad a"
proof (induction xs arbitrary: a)
  case Nil
  then show ?case by (simp add: placeAll_Nil)
next
  case (Cons x xs)
  show ?case using Cons[of "place x a"] place_bad_le[of x a] by (simp add: placeAll_Cons)
qed

text \<open>A slot above the counter that holds a record keeps it.\<close>

lemma place_slot_kept:
  "res a n = Some v \<Longrightarrow> bad a < n \<Longrightarrow> res (place x a) n = Some v"
  by (auto simp: place_def Let_def split: option.splits)

lemma placeAll_slot_kept:
  "res a n = Some v \<Longrightarrow> bad a < n \<Longrightarrow> res (placeAll xs a) n = Some v"
proof (induction xs arbitrary: a)
  case Nil
  then show ?case by (simp add: placeAll_Nil)
next
  case (Cons x xs)
  have "bad (place x a) < n" using place_bad_le[of x a] Cons.prems by simp
  then show ?case using Cons.IH[OF place_slot_kept[OF Cons.prems]] by (simp add: placeAll_Cons)
qed

text \<open>Records with other ids leave slot \<open>k\<close> and the conflicts about \<open>k\<close> alone.\<close>

lemma place_other:
  assumes "sid x \<noteq> k" "0 < k" "bad a < 0"
  shows "res (place x a) k = res a k \<and>
         filter (conflictAbout k) (warns (place x a)) = filter (conflictAbout k) (warns a)"
  using assms
  by (auto simp: place_def Let_def conflictAbout_def conflictWarning_def split: option.splits)

lemma placeAll_other:
  assumes "\<forall>x\<in>set xs. sid x \<noteq> k" "0 < k" "bad a < 0"
  shows "res (placeAll xs a) k = res a k \<and>
         filter (conflictAbout k) (warns (placeAll xs a)) = filter (conflictAbout k) (warns a)"
  using assms
proof (induction xs arbitrary: a)
  case Nil
  then show ?case by (simp add: placeAll_Nil)
next
  case (Cons x xs)
  have b: "bad (place x a) < 0" using place_bad_le[of x a] Cons.prems by simp
  have x: "sid x \<noteq> k" using Cons.prems by simp
  show ?case
    using Cons.IH[OF _ Cons.prems(2) b] Cons.prems(1) place_other[OF x Cons.prems(2,3)]
    by (simp add: placeAll_Cons)
qed

lemma place_first:
  assumes "sid p = k" "0 < k" "res a k = None"
  shows "res (place p a) k = Some p \<and> warns (place p a) = warns a \<and> bad (place p a) = bad a"
  using assms by (auto simp: place_def Let_def)

lemma place_second:
  assumes "sid q = k" "0 < k" "res a k = Some p" "bad a < 0"
  shows "res (place q a) k = Some p \<and>
         res (place q a) (bad a) = Some (q\<lparr>sid := bad a\<rparr>) \<and>
         warns (place q a) = warns a @ [conflictWarning (bad a) (sfile q) (sfile p) k] \<and>
         bad (place q a) = bad a - 1"
  using assms by (auto simp: place_def Let_def)

lemma gapLoop_no_conflict: "filter (conflictAbout k) (gapLoop m i n lst []) = []"
proof -
  have "\<not> conflictAbout k w" if "w \<in> set (gapLoop m i n lst [])" for w
    using gapLoop_sources[OF that] by (auto simp: conflictAbout_def gapWarning_def)
  then show ?thesis by (simp add: filter_empty_conv)
qed

text \<open>
  C1. When exactly two records of the raw list claim the positive id \<open>k\<close>, the earlier one
  \<open>p\<close> stays at index \<open>k\<close> of the array, the later one \<open>q\<close> is stored under a negative
  id \<open>n\<close> above the final counter, and \<open>sortStates\<close> pushes exactly one conflict warning
  about \<open>k\<close>; its related files are the files of \<open>q\<close> and \<open>p\<close>.
\<close>

theorem sortStates_conflict:
  assumes run: "sortStates (pre @ p # mid @ q # post) ws = Inr (r, ws')"
    and ids: "sid p = k" "sid q = k" "0 < k"
    and others: "\<forall>x\<in>set (pre @ mid @ post). sid x \<noteq> k"
  shows "slots (sortedStates r) k = Some p \<and>
         (\<exists>n w. n < 0 \<and> badStateId r < n \<and>
                slots (sortedStates r) n = Some (q\<lparr>sid := n\<rparr>) \<and>
                filter (conflictAbout k) (drop (length ws) ws') = [w] \<and>
                relatedFiles w = [sfile q, sfile p] \<and> wsource w = [src ''state'' n])"
proof -
  let ?a0 = "\<lparr>res = Map.empty, bad = -1, warns = ws\<rparr>"
  let ?a1 = "placeAll pre ?a0"
  let ?a2 = "place p ?a1"
  let ?a3 = "placeAll mid ?a2"
  let ?a4 = "place q ?a3"
  let ?a5 = "placeAll post ?a4"
  let ?n = "bad ?a3"
  let ?K = "conflictAbout k"
  have all: "placeAll (pre @ p # mid @ q # post) ?a0 = ?a5"
    by (simp add: placeAll_append placeAll_Cons)
  from run have r: "slots (sortedStates r) = res ?a5" "badStateId r = bad ?a5"
    and w: "ws' = gapLoop (res ?a5) 1 (maxStateId (pre @ p # mid @ q # post)) None (warns ?a5)"
    unfolding all[symmetric] by (auto simp: sortStates_def Let_def split: if_splits)
  have o: "\<forall>x\<in>set pre. sid x \<noteq> k" "\<forall>x\<in>set mid. sid x \<noteq> k" "\<forall>x\<in>set post. sid x \<noteq> k"
    using others by auto
  have b1: "bad ?a1 < 0" using placeAll_bad_le[of pre ?a0] by simp
  have s1: "res ?a1 k = None" "filter ?K (warns ?a1) = filter ?K ws"
    using placeAll_other[OF o(1) ids(3), of ?a0] by simp_all
  have s2: "res ?a2 k = Some p" "warns ?a2 = warns ?a1" "bad ?a2 = bad ?a1"
    using place_first[OF ids(1) ids(3) s1(1)] by simp_all
  have b2: "bad ?a2 < 0" using b1 s2 by simp
  have b3: "bad ?a3 < 0" using placeAll_bad_le[of mid ?a2] b2 by simp
  have s3: "res ?a3 k = Some p" "filter ?K (warns ?a3) = filter ?K ws"
    using placeAll_other[OF o(2) ids(3) b2] s2 s1 by simp_all
  have s4: "res ?a4 k = Some p" "res ?a4 ?n = Some (q\<lparr>sid := ?n\<rparr>)"
    "warns ?a4 = warns ?a3 @ [conflictWarning ?n (sfile q) (sfile p) k]" "bad ?a4 = ?n - 1"
    using place_second[OF ids(2) ids(3) s3(1) b3] by simp_all
  have b4: "bad ?a4 < 0" using s4 b3 by simp
  have s5: "res ?a5 k = Some p"
    "filter ?K (warns ?a5) = filter ?K ws @ [conflictWarning ?n (sfile q) (sfile p) k]"
    using placeAll_other[OF o(3) ids(3) b4] s4 s3 by (simp_all add: conflictAbout_def conflictWarning_def)
  have n5: "res ?a5 ?n = Some (q\<lparr>sid := ?n\<rparr>)"
    by (rule placeAll_slot_kept[OF s4(2)]) (simp add: s4)
  have bn: "bad ?a5 < ?n" using placeAll_bad_le[of post ?a4] s4 by simp
  obtain cs where cs: "warns ?a5 = ws @ cs"
    using placeAll_warns[of "pre @ p # mid @ q # post" ?a0] unfolding all by auto
  have "ws' = ws @ cs @ gapLoop (res ?a5) 1 (maxStateId (pre @ p # mid @ q # post)) None []"
    using w cs gapLoop_append[of "res ?a5" 1 _ None "warns ?a5"] by simp
  then have "filter ?K (drop (length ws) ws') = filter ?K cs"
    by (simp add: gapLoop_no_conflict)
  moreover have "filter ?K cs = [conflictWarning ?n (sfile q) (sfile p) k]"
    using s5(2) cs by simp
  ultimately have "filter ?K (drop (length ws) ws') = [conflictWarning ?n (sfile q) (sfile p) k]"
    by simp
  moreover have "relatedFiles (conflictWarning ?n (sfile q) (sfile p) k) = [sfile q, sfile p]"
    "wsource (conflictWarning ?n (sfile q) (sfile p) k) = [src ''state'' ?n]"
    by (simp_all add: conflictWarning_def)
  ultimately show ?thesis using r s5(1) n5 bn b3 by auto
qed

lemma placeInv_free: "placeInv a seen \<Longrightarrow> bad a < 0 \<and> res a (bad a) = None"
proof -
  assume i: "placeInv a seen"
  then have b: "bad a < 0" by (simp add: placeInv_def)
  from i have "\<forall>n<0. res a n \<noteq> None \<longrightarrow> bad a < n" unfolding placeInv_def by blast
  with b have "res a (bad a) \<noteq> None \<longrightarrow> bad a < bad a" by blast
  with b show ?thesis by simp
qed

lemma reassigned_snoc:
  "reassigned (xs @ [x]) =
     reassigned xs + (if sid x = -1 \<or> sid x \<in> sid ` set xs then 1 else 0)"
proof -
  let ?f = "\<lambda>ys. filter (\<lambda>i. i \<noteq> -1) (map sid ys)"
  have le: "length (remdups (?f xs)) \<le> length xs"
    by (metis (no_types, lifting) length_filter_le length_map length_remdups_leq order_trans)
  have "length (remdups (?f (xs @ [x]))) =
        (if sid x = -1 \<or> sid x \<in> sid ` set xs then length (remdups (?f xs))
         else Suc (length (remdups (?f xs))))"
  proof (cases "sid x = -1 \<or> sid x \<in> sid ` set xs")
    case True
    then have "set (?f (xs @ [x])) = set (?f xs)" by auto
    then show ?thesis using True by (simp only: length_remdups_card_conv if_True)
  next
    case False
    then have "set (?f (xs @ [x])) = insert (sid x) (set (?f xs))" "sid x \<notin> set (?f xs)"
      by auto
    then show ?thesis using False by (simp only: length_remdups_card_conv) simp
  qed
  with le show ?thesis by (auto simp: reassigned_def)
qed

lemma place_inv:
  assumes "placeInv a seen" "sid x = -1 \<or> 0 < sid x"
  shows "placeInv (place x a) (seen @ [x])"
proof -
  have b: "bad a < 0" and free: "res a (bad a) = None"
    using placeInv_free[OF assms(1)] by simp_all
  show ?thesis
  proof (cases "sid x = -1")
    case True
    then have pl: "place x a = \<lparr>res = (res a)(bad a \<mapsto> x\<lparr>sid := bad a\<rparr>), bad = bad a - 1, warns = warns a\<rparr>"
      using free by (simp add: place_def Let_def)
    show ?thesis using assms(1) True b unfolding pl placeInv_def reassigned_snoc
      by auto
  next
    case False
    then have pos: "0 < sid x" using assms(2) by simp
    show ?thesis
    proof (cases "res a (sid x)")
      case None
      then have pl: "place x a = \<lparr>res = (res a)(sid x \<mapsto> x), bad = bad a, warns = warns a\<rparr>"
        using False by (simp add: place_def Let_def)
      have "sid x \<notin> sid ` set seen" using assms(1) None pos by (auto simp: placeInv_def)
      then show ?thesis using assms(1) False pos unfolding pl placeInv_def reassigned_snoc
        by auto
    next
      case (Some e)
      then have pl: "place x a = \<lparr>res = (res a)(bad a \<mapsto> x\<lparr>sid := bad a\<rparr>), bad = bad a - 1,
          warns = warns a @ [conflictWarning (bad a) (sfile x) (sfile e) (sid x)]\<rparr>"
        using False by (simp add: place_def Let_def)
      have "sid x \<in> sid ` set seen" using assms(1) Some pos by (auto simp: placeInv_def)
      then show ?thesis using assms(1) False pos b unfolding pl placeInv_def reassigned_snoc
        by auto
    qed
  qed
qed

lemma placeAll_inv:
  assumes "placeInv a seen" "\<forall>x\<in>set xs. sid x = -1 \<or> 0 < sid x"
  shows "placeInv (placeAll xs a) (seen @ xs)"
  using assms
proof (induction xs arbitrary: a seen)
  case Nil
  then show ?case by (simp add: placeAll_Nil)
next
  case (Cons x xs)
  have "placeInv (place x a) (seen @ [x])" using place_inv[OF Cons.prems(1)] Cons.prems(2) by simp
  from Cons.IH[OF this] Cons.prems(2) show ?case by (simp add: placeAll_Cons)
qed

lemma placeInv_init: "placeInv \<lparr>res = Map.empty, bad = -1, warns = ws\<rparr> []"
  by (simp add: placeInv_def reassigned_def)

lemma place_sentinel:
  assumes "placeInv a seen" "sid x = -1"
  shows "res (place x a) (bad a) = Some (x\<lparr>sid := bad a\<rparr>) \<and> bad (place x a) = bad a - 1"
proof -
  have "res a (bad a) = None" using placeInv_free[OF assms(1)] by simp
  then show ?thesis using assms(2) by (simp add: place_def Let_def)
qed

lemma loadStateDefinition_sid: "sid (fst (loadStateDefinition f d)) = loadId (def_id d)"
  by (simp add: loadStateDefinition_def Let_def)

text \<open>
  C9 (amended). A record whose definition has no id, the id 0 or the id -1 leaves
  \<open>loadState\<close> with the sentinel -1. In a list whose other ids are -1 or positive,
  \<open>sortStates\<close> gives it the next value \<open>n\<close> of the counter that starts at -1 and goes
  down by one for every earlier sentinel or conflicting record, stores it at index \<open>n\<close>,
  and the final \<open>badStateId\<close> is below \<open>n\<close>: the record lies in the region
  \<open>badStateId + 1 .. -1\<close>.
\<close>

theorem sortStates_sentinel:
  assumes run: "sortStates (pre @ p # post) ws = Inr (r, ws')"
    and p: "p = fst (loadStateDefinition f d)" "idFalsy (def_id d) \<or> def_id d = Some (-1)"
    and ids: "\<forall>x\<in>set (pre @ post). sid x = -1 \<or> 0 < sid x"
  shows "let n = -1 - int (reassigned pre) in
         slots (sortedStates r) n = Some (p\<lparr>sid := n\<rparr>) \<and> n \<le> -1 \<and> badStateId r < n \<and>
         badStateId r = -1 - int (reassigned (pre @ p # post))"
proof -
  let ?a0 = "\<lparr>res = Map.empty, bad = -1, warns = ws\<rparr>"
  let ?a1 = "placeAll pre ?a0"
  let ?a2 = "place p ?a1"
  let ?a3 = "placeAll post ?a2"
  have sp: "sid p = -1"
    using p by (auto simp: loadStateDefinition_sid loadId_def idFalsy_def split: option.splits)
  have all: "placeAll (pre @ p # post) ?a0 = ?a3"
    by (simp add: placeAll_append placeAll_Cons)
  from run have r: "slots (sortedStates r) = res ?a3" "badStateId r = bad ?a3"
    unfolding all[symmetric] by (auto simp: sortStates_def Let_def split: if_splits)
  have i1: "placeInv ?a1 pre" using placeAll_inv[OF placeInv_init, of pre ws] ids by simp
  have n: "bad ?a1 = -1 - int (reassigned pre)" using i1 by (simp add: placeInv_def)
  have s2: "res ?a2 (bad ?a1) = Some (p\<lparr>sid := bad ?a1\<rparr>)" "bad ?a2 = bad ?a1 - 1"
    using place_sentinel[OF i1 sp] by simp_all
  have s3: "res ?a3 (bad ?a1) = Some (p\<lparr>sid := bad ?a1\<rparr>)"
    by (rule placeAll_slot_kept[OF s2(1)]) (simp add: s2)
  have b3: "bad ?a3 < bad ?a1" using placeAll_bad_le[of post ?a2] s2 by simp
  have "placeInv (placeAll (pre @ p # post) ?a0) ([] @ (pre @ p # post))"
    by (rule placeAll_inv[OF placeInv_init]) (use ids sp in auto)
  then have e: "bad ?a3 = -1 - int (reassigned (pre @ p # post))"
    unfolding all by (simp add: placeInv_def)
  show ?thesis using r s3 b3 e n by (simp add: Let_def)
qed

theorem sortStates_conflict_witness:
  "sortStates conflictExample [] =
     Inr (conflictExampleSorted,
          [conflictWarning (-1) ''b.txt'' ''a.txt'' 5, gapWarning 1 2, gapWarning 3 5]) \<and>
   slots (sortedStates conflictExampleSorted) 5 = Some (exampleState 5 ''a.txt'' [1]) \<and>
   (\<exists>n w. n < 0 \<and> badStateId conflictExampleSorted < n \<and>
      slots (sortedStates conflictExampleSorted) n = Some ((exampleState 5 ''b.txt'' [3])\<lparr>sid := n\<rparr>) \<and>
      filter (conflictAbout 5)
        [conflictWarning (-1) ''b.txt'' ''a.txt'' 5, gapWarning 1 2, gapWarning 3 5] = [w] \<and>
      relatedFiles w = [''b.txt'', ''a.txt''] \<and> wsource w = [src ''state'' n])"
proof -
  have run: "sortStates ([] @ exampleState 5 ''a.txt'' [1] # [exampleState 2 ''a.txt'' [2]] @
                exampleState 5 ''b.txt'' [3] # []) [] =
     Inr (conflictExampleSorted,
          [conflictWarning (-1) ''b.txt'' ''a.txt'' 5, gapWarning 1 2, gapWarning 3 5])"
    by (simp add: sortStates_def conflictExampleSorted_def maxStateId_def
        exampleState_def placeAll_def place_def Let_def gapLoop.simps)
  have ids: "sid (exampleState 5 ''a.txt'' [1]) = 5" "sid (exampleState 5 ''b.txt'' [3]) = 5"
    "(0::int) < 5" "\<forall>x\<in>set ([] @ [exampleState 2 ''a.txt'' [2]] @ []). sid x \<noteq> 5"
    by (simp_all add: exampleState_def)
  show ?thesis
    using sortStates_conflict[OF run ids] run
    by (simp add: conflictExample_def exampleState_def)
qed

theorem sortStates_sentinel_witness:
  "sortStates [exampleState 1 ''a.txt'' [1], zeroIdRecord] [] = Inr (sentinelExampleSorted, []) \<and>
   slots (sortedStates sentinelExampleSorted) (-1) = Some (zeroIdRecord\<lparr>sid := -1\<rparr>) \<and>
   badStateId sentinelExampleSorted < -1 \<and>
   badStateId sentinelExampleSorted = -1 - int (reassigned [exampleState 1 ''a.txt'' [1], zeroIdRecord])"
proof -
  have run: "sortStates ([exampleState 1 ''a.txt'' [1]] @ zeroIdRecord # []) [] =
     Inr (sentinelExampleSorted, [])"
    by (simp add: sortStates_def sentinelExampleSorted_def maxStateId_def zeroIdRecord_def
        zeroIdDefinition_def loadStateDefinition_def loadId_def idFalsy_def
        exampleState_def placeAll_def place_def Let_def gapLoop.simps)
  have p: "zeroIdRecord = fst (loadStateDefinition ''c.txt'' zeroIdDefinition)"
    "idFalsy (def_id zeroIdDefinition) \<or> def_id zeroIdDefinition = Some (-1)"
    by (simp_all add: zeroIdRecord_def zeroIdDefinition_def idFalsy_def)
  have ids: "\<forall>x\<in>set ([exampleState 1 ''a.txt'' [1]] @ []). sid x = -1 \<or> 0 < sid x"
    by (simp add: exampleState_def)
  have n: "reassigned [exampleState 1 ''a.txt'' [1]] = 0"
    by (simp add: reassigned_def exampleState_def)
  show ?thesis
    using sortStates_sentinel[OF run p ids] run n
    by (simp add: Let_def)
qed

theorem sortStates_negative_id_counterexample:
  "def_id negativeIdDefinition = Some (-7) \<and>
   sid negativeIdRecord = -7 \<and>
   sortStates [negativeIdRecord] [] = Inr (negativeExampleSorted, []) \<and>
   slots (sortedStates negativeExampleSorted) (-7) = Some negativeIdRecord \<and>
   slots (sortedStates negativeExampleSorted) (-1) = None \<and>
   badStateId negativeExampleSorted = -1"
  by (simp add: sortStates_def negativeExampleSorted_def maxStateId_def negativeIdRecord_def
      negativeIdDefinition_def loadStateDefinition_def loadId_def idFalsy_def
      placeAll_def place_def Let_def gapLoop.simps)

subsection \<open>Geometry\<close>

lemma lookupProvinces_unresolved:
  "\<forall>p\<in>set ps. provinces p = None \<Longrightarrow>
   lookupProvinces i f provinces ps ws =
     (map (\<lambda>p. None) ps, ws @ map (provinceNotExistWarning i f) ps)"
  by (induction ps arbitrary: ws) auto

lemma map_filter_Nones: "List.map_filter (\<lambda>p. p) (map (\<lambda>p. None) ps) = []"
  by (induction ps) (auto simp: List.map_filter_simps)

text \<open>The state version of \<open>calculateBoundingBox\<close> when no listed province resolves.\<close>

lemma calculateBoundingBox_unresolved:
  assumes "\<forall>p\<in>set (sprovinces s). provinces p = None"
  shows "calculateBoundingBox mr s provinces width height ws =
           (withRegion s zeroRegion,
            ws @ map (provinceNotExistWarning (sid s) (sfile s)) (sprovinces s) @
            (if sprovinces s = [] then [] else [noValidProvincesWarning (sid s) (sfile s)]))"
  using lookupProvinces_unresolved[OF assms]
  by (simp add: calculateBoundingBox_def map_filter_Nones)

text \<open>
  C5. A strategic region that lists one province, absent from the province table: the
  strategic region version of \<open>calculateBoundingBox\<close> throws instead of returning the
  zero region with its two warnings, which is what the state version returns for the
  same data.
\<close>

theorem calculateBoundingBoxSR_unresolved_throws:
  "calculateBoundingBoxSR mergeRegions exampleRegion Map.empty 100 [] =
     Inl (ReferenceError ''strategicRegion'') \<and>
   calculateBoundingBox mergeRegions (exampleState 1 ''r.txt'' [7]) Map.empty 100 50 [] =
     (withRegion (exampleState 1 ''r.txt'' [7]) zeroRegion,
      [provinceNotExistWarning 1 ''r.txt'' 7, noValidProvincesWarning 1 ''r.txt''])"
  by (simp add: calculateBoundingBoxSR_def exampleRegion_def calculateBoundingBox_def
      exampleState_def List.map_filter_simps)

text \<open>
  C6. The merged box is one of the three candidate unions and is no wider than any of
  them; on a map of width 100 the boxes at x = 95 (w = 10) and x = 2 (w = 3) merge into
  a box of width 10, where the union without wraparound has width 103; a state made of
  two such provinces gets that box.
\<close>

theorem mergeBoundingBox_shorter_span:
  "zw (mergeBoundingBox a b width) \<le> zw (unionBox a b) \<and>
   zw (mergeBoundingBox a b width) \<le> zw (unionBox (shiftBox width a) b) \<and>
   zw (mergeBoundingBox a b width) \<le> zw (unionBox a (shiftBox width b)) \<and>
   mergeBoundingBox a b width \<in>
     {unionBox a b, unionBox (shiftBox width a) b, unionBox a (shiftBox width b)} \<and>
   zw (mergeBoundingBox eastBox westBox 100) \<le> 12 \<and>
   zw (unionBox eastBox westBox) = 103 \<and>
   boundingBox (sregion (fst (calculateBoundingBox mergeRegions (exampleState 1 ''a.txt'' [1, 2])
      wrapProvinces 100 50 []))) = \<lparr>zx = 95, zy = 10, zw = 10, zh = 4\<rparr>"
proof -
  have "zw (mergeBoundingBox a b width) \<le> zw (unionBox a b)"
    "zw (mergeBoundingBox a b width) \<le> zw (unionBox (shiftBox width a) b)"
    "zw (mergeBoundingBox a b width) \<le> zw (unionBox a (shiftBox width b))"
    "mergeBoundingBox a b width \<in>
       {unionBox a b, unionBox (shiftBox width a) b, unionBox a (shiftBox width b)}"
    by (simp_all add: mergeBoundingBox_def narrower_def)
  moreover have "zw (mergeBoundingBox eastBox westBox 100) \<le> 12"
    "zw (unionBox eastBox westBox) = 103"
    by (simp_all add: mergeBoundingBox_def narrower_def unionBox_def shiftBox_def eastBox_def
        westBox_def)
  moreover have "boundingBox (sregion (fst (calculateBoundingBox mergeRegions
      (exampleState 1 ''a.txt'' [1, 2]) wrapProvinces 100 50 []))) =
      \<lparr>zx = 95, zy = 10, zw = 10, zh = 4\<rparr>"
    by (simp add: calculateBoundingBox_def exampleState_def wrapProvinces_def
        exampleProvince_def List.map_filter_simps mergeRegions_def Let_def withRegion_def
        mergeBoundingBox_def narrower_def unionBox_def shiftBox_def eastBox_def westBox_def)
  ultimately show ?thesis by blast
qed

subsection \<open>Validation of states\<close>

lemma visitProvince_missing:
  assumes "provinces p = None" "visitProvince provinces arr st q acc = Inr acc'"
  shows "\<exists>new. snd acc' = snd acc @ new \<and> (\<forall>w\<in>set new. \<not> aboutProvince p w)"
  using assms
  by (cases "q = p")
     (auto simp: visitProvince_def Let_def pushSea_def aboutProvince_def multiStatesWarning_def
        seaWarning_def src_def srcColor_def split: option.splits if_splits)

lemma visitProvinces_missing:
  assumes "provinces p = None" "visitProvinces provinces arr st qs acc = Inr acc'"
  shows "\<exists>new. snd acc' = snd acc @ new \<and> (\<forall>w\<in>set new. \<not> aboutProvince p w)"
  using assms(2)
proof (induction qs arbitrary: acc)
  case Nil
  then show ?case by simp
next
  case (Cons q qs)
  from Cons.prems obtain a1 where a1: "visitProvince provinces arr st q acc = Inr a1"
    and rest: "visitProvinces provinces arr st qs a1 = Inr acc'"
    by (auto split: sum.splits)
  obtain n1 where n1: "snd a1 = snd acc @ n1" "\<forall>w\<in>set n1. \<not> aboutProvince p w"
    using visitProvince_missing[OF assms(1) a1] by blast
  obtain n2 where n2: "snd acc' = snd a1 @ n2" "\<forall>w\<in>set n2. \<not> aboutProvince p w"
    using Cons.IH[OF rest] by blast
  have "snd acc' = snd acc @ (n1 @ n2)" "\<forall>w\<in>set (n1 @ n2). \<not> aboutProvince p w"
    using n1 n2 by auto
  then show ?case by blast
qed

lemma validateStates_missing:
  assumes "provinces p = None" "validateStates provinces arr is acc = Inr acc'"
  shows "\<exists>new. snd acc' = snd acc @ new \<and> (\<forall>w\<in>set new. \<not> aboutProvince p w)"
  using assms(2)
proof (induction "is" arbitrary: acc)
  case Nil
  then show ?case by simp
next
  case (Cons i "is")
  show ?case
  proof (cases "slots arr i")
    case None
    then show ?thesis using Cons by simp
  next
    case (Some st)
    from Cons.prems Some obtain a1 where
      a1: "visitProvinces provinces arr st (sprovinces st) acc = Inr a1"
      and rest: "validateStates provinces arr is a1 = Inr acc'"
      by (auto split: sum.splits)
    obtain n1 where n1: "snd a1 = snd acc @ n1" "\<forall>w\<in>set n1. \<not> aboutProvince p w"
      using visitProvinces_missing[OF assms(1) a1] by blast
    obtain n2 where n2: "snd acc' = snd a1 @ n2" "\<forall>w\<in>set n2. \<not> aboutProvince p w"
      using Cons.IH[OF rest] by blast
    have "snd acc' = snd acc @ (n1 @ n2)" "\<forall>w\<in>set (n1 @ n2). \<not> aboutProvince p w"
      using n1 n2 by auto
    then show ?thesis by blast
  qed
qed

lemma validateProvinceInState_missing:
  assumes "provinces p = None" "validateProvinceInState provinces arr b ws = Inr ws'"
  shows "\<exists>new. ws' = ws @ new \<and> (\<forall>w\<in>set new. \<not> aboutProvince p w)"
proof -
  from assms(2) obtain acc' where
    v: "validateStates provinces arr [b .. len arr - 1] (Map.empty, ws) = Inr acc'"
    and w: "ws' = snd acc'"
    by (auto simp: validateProvinceInState_def split: sum.splits)
  show ?thesis using validateStates_missing[OF assms(1) v] w by simp
qed

lemma lookupProvinces_eq:
  "lookupProvinces i f provinces ps ws =
     (map provinces ps,
      ws @ map (provinceNotExistWarning i f) (filter (\<lambda>p. provinces p = None) ps))"
  by (induction ps arbitrary: ws) (auto split: option.splits)

lemma calculateBoundingBox_dangling:
  assumes "provinces p = None" "p \<in> set (sprovinces s)"
  shows "provinceNotExistWarning (sid s) (sfile s) p \<in>
           set (drop (length ws) (snd (calculateBoundingBox mr s provinces width height ws)))"
  using assms by (auto simp: calculateBoundingBox_def lookupProvinces_eq Let_def)

subsection \<open>The search of \<open>checkStatesContiguous\<close> terminates\<close>

lemma visitState_measure:
  assumes "x \<in> set S"
  shows "2 * card (sid ` set S - set (snd (visitState cur provinces acc x))) +
           length (fst (visitState cur provinces acc x))
         \<le> 2 * card (sid ` set S - set (snd acc)) + length (fst acc)"
proof (cases "sid x \<notin> set (snd acc) \<and> statesAreAdjacent x cur provinces")
  case True
  then have v: "visitState cur provinces acc x = (fst acc @ [x], snd acc @ [sid x])"
    by (simp add: visitState_def)
  have in1: "sid x \<in> sid ` set S - set (snd acc)" using assms True by auto
  have "sid ` set S - set (snd acc @ [sid x]) = (sid ` set S - set (snd acc)) - {sid x}"
    by auto
  then have "card (sid ` set S - set (snd acc @ [sid x])) = card (sid ` set S - set (snd acc)) - 1"
    using in1 by (simp add: card_Diff_singleton)
  moreover have "0 < card (sid ` set S - set (snd acc))"
    using in1 by (metis card_gt_0_iff empty_iff finite_Diff finite_imageI finite_set)
  ultimately show ?thesis unfolding v by simp
next
  case False
  then have "visitState cur provinces acc x = acc" by (auto simp: visitState_def)
  then show ?thesis by simp
qed

lemma visitStates_measure:
  assumes "set xs \<subseteq> set S"
  shows "2 * card (sid ` set S - set (snd (foldl (visitState cur provinces) acc xs))) +
           length (fst (foldl (visitState cur provinces) acc xs))
         \<le> 2 * card (sid ` set S - set (snd acc)) + length (fst acc)"
  using assms
proof (induction xs arbitrary: acc)
  case Nil
  then show ?case by simp
next
  case (Cons x xs)
  have x: "x \<in> set S" and xs: "set xs \<subseteq> set S" using Cons.prems by auto
  show ?case
    using Cons.IH[OF xs, of "visitState cur provinces acc x"]
      visitState_measure[OF x, of cur provinces acc]
    by simp
qed

termination searchStates
proof (relation "measure (\<lambda>(states, provinces, stack, accessed).
          2 * card (sid ` set states - set accessed) + length stack)", goal_cases)
  case 1
  then show ?case by simp
next
  case (2 states provinces v va accessed x)
  have "2 * card (sid ` set states - set (snd x)) + length (fst x)
        \<le> 2 * card (sid ` set states - set accessed) + length (butlast (v # va))"
    using visitStates_measure[of states states "last (v # va)" provinces "(butlast (v # va), accessed)"]
    unfolding 2 by simp
  moreover have "length (butlast (v # va)) = length va" by simp
  ultimately show ?case by (cases x) (simp del: butlast.simps)
qed

declare searchStates.simps [simp del]

text \<open>
  C3. A supply area that lists state 3 twice passes the state twice to
  \<open>checkStatesContiguous\<close>. The search reaches every member, but the number of keys of
  \<^verbatim>\<open>accessedStates\<close> (one) differs from the length of the list (two), so the function goes
  on to look for an unreached member, finds none and throws.
\<close>

theorem checkStatesContiguous_duplicate_throws:
  "checkStatesContiguous [duplicateMember, duplicateMember] provinces = Inl (TypeError ''id'')"
  by (simp add: checkStatesContiguous_def duplicateMember_def withRegion_def exampleState_def
      visitState_def objectKeys_def searchStates.simps)

subsection \<open>Validation of supply areas\<close>

lemma visitMember_missing:
  assumes "slots stateArray s0 = None"
    "visitMember stateArray areas area q acc = Inr (st, m, ws')"
  shows "\<exists>new. ws' = snd acc @ new \<and> (\<forall>w\<in>set new. \<not> aboutState s0 w)"
  using assms
  by (cases "q = s0")
     (auto simp: visitMember_def Let_def aboutState_def multiSupplyAreasWarning_def src_def
        split: option.splits)

lemma visitMembers_missing:
  assumes "slots stateArray s0 = None"
    "visitMembers stateArray areas area qs acc = Inr (sts, m, ws')"
  shows "\<exists>new. ws' = snd acc @ new \<and> (\<forall>w\<in>set new. \<not> aboutState s0 w)"
  using assms(2)
proof (induction qs arbitrary: acc sts m ws')
  case Nil
  then show ?case by simp
next
  case (Cons q qs)
  from Cons.prems obtain st m1 w1 sts1 where
    a1: "visitMember stateArray areas area q acc = Inr (st, m1, w1)"
    and rest: "visitMembers stateArray areas area qs (m1, w1) = Inr (sts1, m, ws')"
    by (auto split: sum.splits prod.splits)
  obtain n1 where n1: "w1 = snd acc @ n1" "\<forall>w\<in>set n1. \<not> aboutState s0 w"
    using visitMember_missing[OF assms(1) a1] by blast
  obtain n2 where n2: "ws' = w1 @ n2" "\<forall>w\<in>set n2. \<not> aboutState s0 w"
    using Cons.IH[OF rest] by auto
  have "ws' = snd acc @ (n1 @ n2)" "\<forall>w\<in>set (n1 @ n2). \<not> aboutState s0 w"
    using n1 n2 by auto
  then show ?case by blast
qed

lemma notContiguous_not_about: "\<not> aboutState s0 (notContiguousWarning i f b)"
  by (simp add: aboutState_def notContiguousWarning_def src_def)

lemma validateSupplyAreas_missing:
  assumes "slots stateArray s0 = None"
    "validateSupplyAreas stateArray areas provinces is acc = Inr acc'"
  shows "\<exists>new. snd acc' = snd acc @ new \<and> (\<forall>w\<in>set new. \<not> aboutState s0 w)"
  using assms(2)
proof (induction "is" arbitrary: acc)
  case Nil
  then show ?case by simp
next
  case (Cons i "is")
  show ?case
  proof (cases "slots areas i")
    case None
    then show ?thesis using Cons by simp
  next
    case (Some area)
    from Cons.prems Some obtain looked m1 w1 where
      a1: "visitMembers stateArray areas area (astates area) acc = Inr (looked, m1, w1)"
      by (auto split: sum.splits prod.splits)
    obtain n1 where n1: "w1 = snd acc @ n1" "\<forall>w\<in>set n1. \<not> aboutState s0 w"
      using visitMembers_missing[OF assms(1) a1] by blast
    from Cons.prems Some a1 obtain c where
      c: "checkStatesContiguous (List.map_filter (\<lambda>s. s) looked) provinces = Inr c"
      by (auto split: sum.splits)
    show ?thesis
    proof (cases c)
      case None
      then have rest: "validateSupplyAreas stateArray areas provinces is (m1, w1) = Inr acc'"
        using Cons.prems Some a1 c by simp
      obtain n2 where n2: "snd acc' = w1 @ n2" "\<forall>w\<in>set n2. \<not> aboutState s0 w"
        using Cons.IH[OF rest] by auto
      have "snd acc' = snd acc @ (n1 @ n2)" "\<forall>w\<in>set (n1 @ n2). \<not> aboutState s0 w"
        using n1 n2 by auto
      then show ?thesis by blast
    next
      case B: (Some b)
      then have rest: "validateSupplyAreas stateArray areas provinces is
          (m1, w1 @ [notContiguousWarning i (afile area) b]) = Inr acc'"
        using Cons.prems Some a1 c by simp
      obtain n2 where n2: "snd acc' = (w1 @ [notContiguousWarning i (afile area) b]) @ n2"
        "\<forall>w\<in>set n2. \<not> aboutState s0 w"
        using Cons.IH[OF rest] by auto
      have "snd acc' = snd acc @ (n1 @ [notContiguousWarning i (afile area) b] @ n2)"
        "\<forall>w\<in>set (n1 @ [notContiguousWarning i (afile area) b] @ n2). \<not> aboutState s0 w"
        using n1 n2 notContiguous_not_about by auto
      then show ?thesis by blast
    qed
  qed
qed

lemma unassignedStates_missing:
  assumes "slots stateArray s0 = None"
  shows "\<forall>w\<in>set (unassignedStates stateArray m). \<not> aboutState s0 w"
  using assms
  by (auto simp: unassignedStates_def aboutState_def noSupplyAreaWarning_def src_def
      split: option.splits if_splits)

lemma validateStatesInSupplyAreas_missing:
  assumes "slots stateArray s0 = None"
    "validateStatesInSupplyAreas stateArray areas provinces b ws = Inr ws'"
  shows "\<exists>new. ws' = ws @ new \<and> (\<forall>w\<in>set new. \<not> aboutState s0 w)"
proof -
  from assms(2) obtain acc' where
    v: "validateSupplyAreas stateArray areas provinces [b .. len areas - 1] (Map.empty, ws) = Inr acc'"
    and w: "ws' = snd acc' @ unassignedStates stateArray (fst acc')"
    by (auto simp: validateStatesInSupplyAreas_def split: sum.splits)
  obtain n1 where n1: "snd acc' = ws @ n1" "\<forall>w\<in>set n1. \<not> aboutState s0 w"
    using validateSupplyAreas_missing[OF assms(1) v] by auto
  have "ws' = ws @ (n1 @ unassignedStates stateArray (fst acc'))"
    "\<forall>w\<in>set (n1 @ unassignedStates stateArray (fst acc')). \<not> aboutState s0 w"
    using n1 w unassignedStates_missing[OF assms(1)] by auto
  then show ?thesis by blast
qed

text \<open>
  C10. A province id that resolves to no province gets no warning from the reverse-map
  pass of \<open>validateProvinceInState\<close>, however many states list it: no warning pushed by
  the pass names it as a province (so no multi-membership warning). Each state that lists
  it gets its dangling-reference warning from \<open>calculateBoundingBox\<close>. The same holds for
  a state id that resolves to no state in \<open>validateStatesInSupplyAreas\<close>.
\<close>

theorem missing_child_no_multi_membership:
  assumes "provinces p = None"
    and "validateProvinceInState provinces arr b ws = Inr ws'"
    and "p \<in> set (sprovinces parent)"
    and "slots stateArray s0 = None"
    and "validateStatesInSupplyAreas stateArray areas provinces ba wa = Inr wa'"
  shows "(\<exists>new. ws' = ws @ new \<and> (\<forall>w\<in>set new. \<not> aboutProvince p w)) \<and>
         provinceNotExistWarning (sid parent) (sfile parent) p \<in>
           set (drop (length w0)
                  (snd (calculateBoundingBox mr parent provinces width height w0))) \<and>
         (\<exists>new. wa' = wa @ new \<and> (\<forall>w\<in>set new. \<not> aboutState s0 w))"
  using validateProvinceInState_missing[OF assms(1,2)]
    calculateBoundingBox_dangling[where provinces=provinces and p=p and s=parent, OF assms(1,3)]
    validateStatesInSupplyAreas_missing[OF assms(4,5)]
  by blast

theorem missing_child_no_multi_membership_witness:
  "danglingProvinces 9 = None \<and>
   validateProvinceInState danglingProvinces danglingStates 0 [] = Inr [] \<and>
   9 \<in> set (sprovinces (exampleState 1 ''a.txt'' [1, 9])) \<and>
   slots danglingStates 8 = None \<and>
   validateStatesInSupplyAreas danglingStates danglingAreas danglingProvinces 0 [] = Inr [] \<and>
   provinceNotExistWarning 1 ''a.txt'' 9 \<in>
     set (snd (calculateBoundingBox mergeRegions (exampleState 1 ''a.txt'' [1, 9])
                 danglingProvinces 100 50 []))"
proof -
  have h1: "danglingProvinces 9 = None" by (simp add: danglingProvinces_def)
  have h2: "validateProvinceInState danglingProvinces danglingStates 0 [] = Inr []"
    by (simp add: validateProvinceInState_def danglingStates_def danglingProvinces_def
        visitProvince_def pushSea_def exampleProvince_def withRegion_def exampleState_def
        Let_def upto.simps)
  have h3: "9 \<in> set (sprovinces (exampleState 1 ''a.txt'' [1, 9]))"
    by (simp add: exampleState_def)
  have h4: "slots danglingStates 8 = None" by (simp add: danglingStates_def)
  have h5: "validateStatesInSupplyAreas danglingStates danglingAreas danglingProvinces 0 [] = Inr []"
    by (simp add: validateStatesInSupplyAreas_def danglingStates_def danglingAreas_def
        visitMember_def exampleArea_def withRegion_def exampleState_def Let_def
        List.map_filter_simps checkStatesContiguous_def visitState_def objectKeys_def
        unassignedStates_def upto.simps searchStates.simps)
  show ?thesis
    using missing_child_no_multi_membership[OF h1 h2 h3 h4 h5, of "[]" mergeRegions 100 50]
      h1 h2 h3 h4 h5
    by (simp add: exampleState_def)
qed

subsection \<open>Shared provinces\<close>

lemma place_wellIndexed:
  assumes "\<forall>k s. res a k = Some s \<longrightarrow> sid s = k"
  shows "\<forall>k s. res (place x a) k = Some s \<longrightarrow> sid s = k"
  using assms by (auto simp: place_def Let_def split: option.splits if_splits)

lemma placeAll_wellIndexed:
  assumes "\<forall>k s. res a k = Some s \<longrightarrow> sid s = k"
  shows "\<forall>k s. res (placeAll xs a) k = Some s \<longrightarrow> sid s = k"
  using assms
proof (induction xs arbitrary: a)
  case Nil
  then show ?case by (simp add: placeAll_Nil)
next
  case (Cons x xs)
  show ?case using Cons.IH[OF place_wellIndexed[OF Cons.prems]] by (simp add: placeAll_Cons)
qed

lemma sortStates_wellIndexed:
  assumes "sortStates xs ws = Inr (r, ws')"
  shows "wellIndexed (sortedStates r)"
proof -
  from assms have "slots (sortedStates r) = res (placeAll xs \<lparr>res = Map.empty, bad = -1, warns = ws\<rparr>)"
    by (auto simp: sortStates_def Let_def split: if_splits)
  then show ?thesis
    using placeAll_wellIndexed[of "\<lparr>res = Map.empty, bad = -1, warns = ws\<rparr>" xs]
    by (simp add: wellIndexed_def)
qed

lemma map_filter_map_id: "List.map_filter (\<lambda>p. p) (map f ps) = List.map_filter f ps"
  by (induction ps) (auto simp: List.map_filter_simps split: option.splits)

lemma calculateBoundingBox_geometry:
  "fst (calculateBoundingBox mr s provinces width height ws) = stateGeometry mr provinces width s"
  by (simp add: calculateBoundingBox_def lookupProvinces_eq map_filter_map_id stateGeometry_def
      Let_def)

lemma fillStep_slots:
  "fst (fillStep mr arr provinces width height acc i) =
     (case slots arr i of None \<Rightarrow> fst acc
      | Some s \<Rightarrow> (fst acc)(i \<mapsto> stateGeometry mr provinces width s))"
proof (cases "slots arr i")
  case None
  then show ?thesis by (simp add: fillStep_def)
next
  case (Some s)
  obtain st ws where c: "calculateBoundingBox mr s provinces width height (snd acc) = (st, ws)"
    by (cases "calculateBoundingBox mr s provinces width height (snd acc)")
  have "st = stateGeometry mr provinces width s"
    using calculateBoundingBox_geometry[of mr s provinces width height "snd acc"] c by simp
  then show ?thesis using Some c by (simp add: fillStep_def)
qed

lemma fill_slots:
  "fst (foldl (fillStep mr arr provinces width height) acc is) k =
     (if k \<in> set is
      then (case slots arr k of None \<Rightarrow> fst acc k
            | Some s \<Rightarrow> Some (stateGeometry mr provinces width s))
      else fst acc k)"
proof (induction "is" arbitrary: acc)
  case Nil
  then show ?case by simp
next
  case (Cons i "is")
  show ?case
    using Cons[of "fillStep mr arr provinces width height acc i"]
    by (auto simp: fillStep_slots split: option.splits)
qed

lemma fillStates_slots:
  "fst (fillStates mr srt provinces width height ws) k =
     (if badStateId srt < k \<and> k < len (sortedStates srt)
      then map_option (stateGeometry mr provinces width) (slots (sortedStates srt) k)
      else None)"
  unfolding fillStates_def fill_slots
  by (auto split: option.splits)

lemma stateGeometry_fields:
  "sid (stateGeometry mr provinces width s) = sid s"
  "sprovinces (stateGeometry mr provinces width s) = sprovinces s"
  "sfile (stateGeometry mr provinces width s) = sfile s"
  by (simp_all add: stateGeometry_def withRegion_def)

lemma visitProvince_step:
  assumes "ownersExist arr m" "slots arr (sid st) \<noteq> None"
  shows "\<exists>m' new. visitProvince provinces arr st q (m, ws) = Inr (m', ws @ new) \<and>
           ownersExist arr m' \<and>
           (\<forall>x owner. m x = Some owner \<longrightarrow> m' x = Some owner) \<and>
           (\<forall>x. x \<noteq> q \<longrightarrow> m' x = m x) \<and>
           (m q = None \<longrightarrow> m' q = Some (sid st)) \<and>
           (\<forall>owner pr oi. m q = Some owner \<longrightarrow> provinces q = Some pr \<longrightarrow>
               slots arr owner = Some oi \<longrightarrow>
               multiStatesWarning st owner (sfile oi) q pr \<in> set new)"
proof (cases "m q")
  case None
  have "visitProvince provinces arr st q (m, ws) =
          Inr (m(q \<mapsto> sid st), pushSea st q (provinces q) ws)"
    using None by (simp add: visitProvince_def Let_def)
  moreover have "\<exists>new. pushSea st q (provinces q) ws = ws @ new"
    by (simp add: pushSea_def split: option.splits)
  moreover have "ownersExist arr (m(q \<mapsto> sid st))"
    using assms by (auto simp: ownersExist_def)
  ultimately show ?thesis using None by auto
next
  case (Some owner)
  then obtain oi where oi: "slots arr owner = Some oi"
    using assms(1) by (auto simp: ownersExist_def)
  show ?thesis
  proof (cases "provinces q")
    case None
    then have "visitProvince provinces arr st q (m, ws) = Inr (m, ws @ [])"
      using Some by (simp add: visitProvince_def Let_def)
    then show ?thesis using assms(1) Some None by auto
  next
    case P: (Some pr)
    have "visitProvince provinces arr st q (m, ws) =
            Inr (m, pushSea st q (Some pr) (ws @ [multiStatesWarning st owner (sfile oi) q pr]))"
      using Some P oi by (simp add: visitProvince_def Let_def)
    moreover have "\<exists>t. pushSea st q (Some pr) (ws @ [multiStatesWarning st owner (sfile oi) q pr])
                     = ws @ (multiStatesWarning st owner (sfile oi) q pr # t)"
      by (simp add: pushSea_def)
    ultimately obtain t where
      "visitProvince provinces arr st q (m, ws) =
         Inr (m, ws @ (multiStatesWarning st owner (sfile oi) q pr # t))"
      by auto
    then show ?thesis using assms(1) Some P oi by auto
  qed
qed

lemma visitProvinces_steps:
  assumes "ownersExist arr m" "slots arr (sid st) \<noteq> None"
  shows "\<exists>m' new. visitProvinces provinces arr st qs (m, ws) = Inr (m', ws @ new) \<and>
           ownersExist arr m' \<and>
           (\<forall>x owner. m x = Some owner \<longrightarrow> m' x = Some owner) \<and>
           (\<forall>x. x \<notin> set qs \<longrightarrow> m' x = m x) \<and>
           (\<forall>x\<in>set qs. m x = None \<longrightarrow> m' x = Some (sid st)) \<and>
           (\<forall>x\<in>set qs. \<forall>owner pr oi. m x = Some owner \<longrightarrow> provinces x = Some pr \<longrightarrow>
               slots arr owner = Some oi \<longrightarrow>
               multiStatesWarning st owner (sfile oi) x pr \<in> set new)"
  using assms(1)
proof (induction qs arbitrary: m ws)
  case Nil
  then show ?case by simp
next
  case (Cons q qs)
  obtain m1 n1 where s1: "visitProvince provinces arr st q (m, ws) = Inr (m1, ws @ n1)"
    and o1: "ownersExist arr m1"
    and k1: "\<forall>x owner. m x = Some owner \<longrightarrow> m1 x = Some owner"
    and u1: "\<forall>x. x \<noteq> q \<longrightarrow> m1 x = m x"
    and f1: "m q = None \<longrightarrow> m1 q = Some (sid st)"
    and w1: "\<forall>owner pr oi. m q = Some owner \<longrightarrow> provinces q = Some pr \<longrightarrow>
               slots arr owner = Some oi \<longrightarrow>
               multiStatesWarning st owner (sfile oi) q pr \<in> set n1"
    using visitProvince_step[OF Cons.prems assms(2), of provinces q ws]
    by (elim exE conjE) (rule that)
  obtain m2 n2 where s2: "visitProvinces provinces arr st qs (m1, ws @ n1) = Inr (m2, (ws @ n1) @ n2)"
    and o2: "ownersExist arr m2"
    and k2: "\<forall>x owner. m1 x = Some owner \<longrightarrow> m2 x = Some owner"
    and u2: "\<forall>x. x \<notin> set qs \<longrightarrow> m2 x = m1 x"
    and f2: "\<forall>x\<in>set qs. m1 x = None \<longrightarrow> m2 x = Some (sid st)"
    and w2: "\<forall>x\<in>set qs. \<forall>owner pr oi. m1 x = Some owner \<longrightarrow> provinces x = Some pr \<longrightarrow>
               slots arr owner = Some oi \<longrightarrow>
               multiStatesWarning st owner (sfile oi) x pr \<in> set n2"
    using Cons.IH[OF o1, of "ws @ n1"] by (elim exE conjE) (rule that)
  have r: "visitProvinces provinces arr st (q # qs) (m, ws) = Inr (m2, ws @ (n1 @ n2))"
    using s1 s2 by simp
  have k: "\<forall>x owner. m x = Some owner \<longrightarrow> m2 x = Some owner" using k1 k2 by blast
  have u: "\<forall>x. x \<notin> set (q # qs) \<longrightarrow> m2 x = m x" using u1 u2 by simp
  have f: "\<forall>x\<in>set (q # qs). m x = None \<longrightarrow> m2 x = Some (sid st)"
  proof (intro ballI impI)
    fix x assume x: "x \<in> set (q # qs)" and n: "m x = None"
    show "m2 x = Some (sid st)"
    proof (cases "x = q")
      case True
      then show ?thesis using f1 k2 n by blast
    next
      case False
      then have "x \<in> set qs" "m1 x = None" using x u1 n by auto
      then show ?thesis using f2 by blast
    qed
  qed
  have w: "\<forall>x\<in>set (q # qs). \<forall>owner pr oi. m x = Some owner \<longrightarrow> provinces x = Some pr \<longrightarrow>
               slots arr owner = Some oi \<longrightarrow>
               multiStatesWarning st owner (sfile oi) x pr \<in> set (n1 @ n2)"
  proof (intro ballI allI impI)
    fix x owner pr oi
    assume x: "x \<in> set (q # qs)" and h: "m x = Some owner" "provinces x = Some pr"
      "slots arr owner = Some oi"
    show "multiStatesWarning st owner (sfile oi) x pr \<in> set (n1 @ n2)"
    proof (cases "x = q")
      case True
      then show ?thesis using w1 h by auto
    next
      case False
      then have "x \<in> set qs" "m1 x = Some owner" using x k1 h by auto
      then show ?thesis using w2 h by auto
    qed
  qed
  from r o2 k u f w show ?case by blast
qed

lemma validateStates_steps:
  assumes "wellIndexed arr" "ownersExist arr m"
  shows "\<exists>m' new. validateStates provinces arr is (m, ws) = Inr (m', ws @ new) \<and>
           ownersExist arr m' \<and>
           (\<forall>x owner. m x = Some owner \<longrightarrow> m' x = Some owner) \<and>
           (\<forall>x. (\<forall>k\<in>set is. \<forall>s. slots arr k = Some s \<longrightarrow> x \<notin> set (sprovinces s)) \<longrightarrow>
                m' x = m x)"
  using assms(2)
proof (induction "is" arbitrary: m ws)
  case Nil
  then show ?case by simp
next
  case (Cons i "is")
  show ?case
  proof (cases "slots arr i")
    case None
    obtain m2 n2 where "validateStates provinces arr is (m, ws) = Inr (m2, ws @ n2)"
      "ownersExist arr m2" "\<forall>x owner. m x = Some owner \<longrightarrow> m2 x = Some owner"
      "\<forall>x. (\<forall>k\<in>set is. \<forall>s. slots arr k = Some s \<longrightarrow> x \<notin> set (sprovinces s)) \<longrightarrow> m2 x = m x"
      using Cons.IH[OF Cons.prems, of ws] by (elim exE conjE) (rule that)
    then show ?thesis using None by auto
  next
    case (Some st)
    have here: "slots arr (sid st) \<noteq> None" using assms(1) Some by (auto simp: wellIndexed_def)
    obtain m1 n1 where s1: "visitProvinces provinces arr st (sprovinces st) (m, ws) = Inr (m1, ws @ n1)"
      and o1: "ownersExist arr m1"
      and k1: "\<forall>x owner. m x = Some owner \<longrightarrow> m1 x = Some owner"
      and u1: "\<forall>x. x \<notin> set (sprovinces st) \<longrightarrow> m1 x = m x"
      using visitProvinces_steps[OF Cons.prems here, of provinces "sprovinces st" ws]
      by (elim exE conjE) (rule that)
    obtain m2 n2 where s2: "validateStates provinces arr is (m1, ws @ n1) = Inr (m2, (ws @ n1) @ n2)"
      and o2: "ownersExist arr m2"
      and k2: "\<forall>x owner. m1 x = Some owner \<longrightarrow> m2 x = Some owner"
      and u2: "\<forall>x. (\<forall>k\<in>set is. \<forall>s. slots arr k = Some s \<longrightarrow> x \<notin> set (sprovinces s)) \<longrightarrow>
                  m2 x = m1 x"
      using Cons.IH[OF o1, of "ws @ n1"] by (elim exE conjE) (rule that)
    have r: "validateStates provinces arr (i # is) (m, ws) = Inr (m2, ws @ (n1 @ n2))"
      using Some s1 s2 by simp
    have k: "\<forall>x owner. m x = Some owner \<longrightarrow> m2 x = Some owner" using k1 k2 by blast
    have u: "\<forall>x. (\<forall>k\<in>set (i # is). \<forall>s. slots arr k = Some s \<longrightarrow> x \<notin> set (sprovinces s)) \<longrightarrow>
                m2 x = m x"
      using u1 u2 Some by simp
    from r o2 k u show ?thesis by blast
  qed
qed

lemma validateStates_append:
  "validateStates provinces arr (xs @ ys) acc =
     (case validateStates provinces arr xs acc of
        Inl e \<Rightarrow> Inl e
      | Inr acc' \<Rightarrow> validateStates provinces arr ys acc')"
  by (induction xs arbitrary: acc) (auto split: option.splits sum.splits)

lemma map_filter_member: "q \<in> set ps \<Longrightarrow> f q = Some v \<Longrightarrow> v \<in> set (List.map_filter f ps)"
  by (force simp: List.map_filter_def)

lemma concat_records: "foldl (\<lambda>p c. p @ fst c) z fileResults = z @ concat (map fst fileResults)"
  by (induction fileResults arbitrary: z) auto

lemma calculateBoundingBox_appends:
  "\<exists>new. snd (calculateBoundingBox mr s provinces width height ws) = ws @ new"
  by (simp add: calculateBoundingBox_def lookupProvinces_eq Let_def)

lemma fill_appends:
  "\<exists>new. snd (foldl (fillStep mr arr provinces width height) (m, ws) is) = ws @ new"
proof (induction "is" arbitrary: m ws)
  case Nil
  then show ?case by simp
next
  case (Cons i "is")
  have "\<exists>m1 n1. fillStep mr arr provinces width height (m, ws) i = (m1, ws @ n1)"
  proof (cases "slots arr i")
    case None
    then have "fillStep mr arr provinces width height (m, ws) i = (m, ws @ [])"
      by (simp add: fillStep_def)
    then show ?thesis by blast
  next
    case (Some s)
    obtain st w where c: "calculateBoundingBox mr s provinces width height ws = (st, w)"
      by (cases "calculateBoundingBox mr s provinces width height ws")
    obtain n where n: "w = ws @ n"
      using calculateBoundingBox_appends[of mr s provinces width height ws] c by auto
    have "fillStep mr arr provinces width height (m, ws) i = (m(i \<mapsto> st), ws @ n)"
      using Some c n by (simp add: fillStep_def)
    then show ?thesis by blast
  qed
  then obtain m1 n1 where s1: "fillStep mr arr provinces width height (m, ws) i = (m1, ws @ n1)"
    by blast
  obtain n2 where
    "snd (foldl (fillStep mr arr provinces width height) (m1, ws @ n1) is) = (ws @ n1) @ n2"
    using Cons.IH[of m1 "ws @ n1"] by blast
  then show ?case using s1 by simp
qed

lemma fillStates_appends:
  "\<exists>new. snd (fillStates mr srt provinces width height ws) = ws @ new"
  unfolding fillStates_def by (rule fill_appends)

text \<open>
  C7 (amended). Reconciliation succeeds and stores every record at the index of its id.
  Two states stored at indices \<open>i < j\<close> of the reconciled array, both above \<open>badStateId\<close>
  and below the length of the array (the indices that the geometry loop and the
  validator visit), both list the existing province \<open>p\<close>, and no state stored at a visited
  index below \<open>i\<close> lists it. Then \<open>mergeFiles\<close> succeeds and keeps the warnings of the
  reconciliation; the region of each of the two states is merged from all of its own
  resolvable provinces, the shared province among them; and among the warnings pushed
  after reconciliation is the multiple-states warning whose sources are state \<open>j\<close>, state
  \<open>i\<close> and province \<open>p\<close> with its colour, whose related files are the file of the state
  at \<open>j\<close> and then the file of the state at \<open>i\<close>, and whose text names \<open>p\<close>, the owner \<open>i\<close>
  and \<open>j\<close>: the first state to list \<open>p\<close> is its owner in the reverse map.
\<close>

theorem mergeFiles_shared_province:
  assumes sorted: "sortStatesOf (concat (map fst fileResults)) (concat (map snd fileResults)) =
                     Inr (srt, ws1)"
    and indexed: "\<forall>k s. slots (sortedStates srt) k = Some s \<longrightarrow> sid s = k"
    and range: "badStateId srt < i" "i < j" "j < len (sortedStates srt)"
    and a: "slots (sortedStates srt) i = Some a" and b: "slots (sortedStates srt) j = Some b"
    and shared: "p \<in> set (sprovinces a)" "p \<in> set (sprovinces b)" "provinces p = Some pr"
    and first: "\<forall>k s. badStateId srt < k \<and> k < i \<and> slots (sortedStates srt) k = Some s \<longrightarrow>
                  p \<notin> set (sprovinces s)"
  shows "\<exists>res new.
      mergeFiles sortStatesOf mr provinces width height fileResults = Inr (res, ws1 @ new) \<and>
      slots (loadedStates res) i =
        Some (withRegion a (mr (List.map_filter provinces (sprovinces a)) width)) \<and>
      slots (loadedStates res) j =
        Some (withRegion b (mr (List.map_filter provinces (sprovinces b)) width)) \<and>
      pr \<in> set (List.map_filter provinces (sprovinces a)) \<and>
      pr \<in> set (List.map_filter provinces (sprovinces b)) \<and>
      \<lparr>wsource = [src ''state'' j, src ''state'' i, srcColor ''province'' p (color pr)],
       relatedFiles = [sfile b, sfile a],
       wtext = Localize ''worldmap.warnings.provinceinmultistates'' [Num p, Num i, Num j]\<rparr>
        \<in> set new"
proof -
  let ?L = "len (sortedStates srt)"
  let ?B = "badStateId srt"
  let ?g = "stateGeometry mr provinces width"
  obtain filled ws2 where fs: "fillStates mr srt provinces width height ws1 = (filled, ws2)"
    by (cases "fillStates mr srt provinces width height ws1")
  obtain n0 where n0: "ws2 = ws1 @ n0"
    using fillStates_appends[of mr srt provinces width height ws1] fs by auto
  have filled: "filled k = (if ?B < k \<and> k < ?L then map_option ?g (slots (sortedStates srt) k)
                            else None)" for k
    using fillStates_slots[of mr srt provinces width height ws1 k] fs by simp
  let ?arr = "\<lparr>slots = filled, len = ?L\<rparr>"
  have wi: "wellIndexed (sortedStates srt)" using indexed by (simp add: wellIndexed_def)
  have wf: "wellIndexed ?arr"
    using wi by (auto simp: wellIndexed_def filled stateGeometry_fields split: if_splits)
  have pa: "pr \<in> set (List.map_filter provinces (sprovinces a))"
    and pb: "pr \<in> set (List.map_filter provinces (sprovinces b))"
    using shared by (auto intro: map_filter_member)
  have ga: "?g a = withRegion a (mr (List.map_filter provinces (sprovinces a)) width)"
    and gb: "?g b = withRegion b (mr (List.map_filter provinces (sprovinces b)) width)"
    using pa pb by (auto simp: stateGeometry_def)
  have fi: "filled i = Some (?g a)" and fj: "filled j = Some (?g b)"
    using range a b by (simp_all add: filled)
  have idx: "[?B + 1 .. ?L - 1] = [?B + 1 .. i - 1] @ i # [i + 1 .. j - 1] @ j # [j + 1 .. ?L - 1]"
  proof -
    have "[?B + 1 .. ?L - 1] = [?B + 1 .. i - 1] @ i # [i + 1 .. ?L - 1]"
      using range by (intro upto_split3) simp_all
    moreover have "[i + 1 .. ?L - 1] = [i + 1 .. j - 1] @ j # [j + 1 .. ?L - 1]"
      using range by (intro upto_split3) simp_all
    ultimately show ?thesis by simp
  qed
  have none_before: "\<forall>k\<in>set [?B + 1 .. i - 1]. \<forall>s. slots ?arr k = Some s \<longrightarrow> p \<notin> set (sprovinces s)"
  proof (intro ballI allI impI)
    fix k s assume k: "k \<in> set [?B + 1 .. i - 1]" and s: "slots ?arr k = Some s"
    from k have kr: "?B < k" "k < i" by auto
    with s range obtain z where z: "slots (sortedStates srt) k = Some z" "s = ?g z"
      by (auto simp: filled split: if_splits)
    from first kr z(1) have "p \<notin> set (sprovinces z)" by blast
    then show "p \<notin> set (sprovinces s)" using z(2) by (simp add: stateGeometry_fields)
  qed
  have o0: "ownersExist ?arr Map.empty" by (simp add: ownersExist_def)
  obtain m1 n1 where s1: "validateStates provinces ?arr [?B + 1 .. i - 1] (Map.empty, ws2) = Inr (m1, ws2 @ n1)"
    and o1: "ownersExist ?arr m1"
    and u1: "\<forall>x. (\<forall>k\<in>set [?B + 1 .. i - 1]. \<forall>s. slots ?arr k = Some s \<longrightarrow> x \<notin> set (sprovinces s)) \<longrightarrow>
                m1 x = Map.empty x"
    using validateStates_steps[OF wf o0, of provinces "[?B + 1 .. i - 1]" ws2]
    by (elim exE conjE) (rule that)
  have m1p: "m1 p = None" using u1 none_before by simp
  have hi: "slots ?arr (sid (?g a)) \<noteq> None" using wf fi by (auto simp: wellIndexed_def)
  obtain m2 n2 where s2: "visitProvinces provinces ?arr (?g a) (sprovinces (?g a)) (m1, ws2 @ n1) =
      Inr (m2, (ws2 @ n1) @ n2)"
    and o2: "ownersExist ?arr m2"
    and f2: "\<forall>x\<in>set (sprovinces (?g a)). m1 x = None \<longrightarrow> m2 x = Some (sid (?g a))"
    using visitProvinces_steps[OF o1 hi, of provinces "sprovinces (?g a)" "ws2 @ n1"]
    by (elim exE conjE) (rule that)
  have sida: "sid a = i" using wi a by (simp add: wellIndexed_def)
  have sidb: "sid b = j" using wi b by (simp add: wellIndexed_def)
  have m2p: "m2 p = Some i" using f2 m1p shared sida by (simp add: stateGeometry_fields)
  obtain m3 n3 where s3: "validateStates provinces ?arr [i + 1 .. j - 1] (m2, (ws2 @ n1) @ n2) =
      Inr (m3, ((ws2 @ n1) @ n2) @ n3)"
    and o3: "ownersExist ?arr m3"
    and k3: "\<forall>x owner. m2 x = Some owner \<longrightarrow> m3 x = Some owner"
    using validateStates_steps[OF wf o2, of provinces "[i + 1 .. j - 1]" "(ws2 @ n1) @ n2"]
    by (elim exE conjE) (rule that)
  have m3p: "m3 p = Some i" using k3 m2p by blast
  have hj: "slots ?arr (sid (?g b)) \<noteq> None" using wf fj by (auto simp: wellIndexed_def)
  obtain m4 n4 where s4: "visitProvinces provinces ?arr (?g b) (sprovinces (?g b))
        (m3, ((ws2 @ n1) @ n2) @ n3) = Inr (m4, (((ws2 @ n1) @ n2) @ n3) @ n4)"
    and o4: "ownersExist ?arr m4"
    and w4: "\<forall>x\<in>set (sprovinces (?g b)). \<forall>owner pr oi. m3 x = Some owner \<longrightarrow>
               provinces x = Some pr \<longrightarrow> slots ?arr owner = Some oi \<longrightarrow>
               multiStatesWarning (?g b) owner (sfile oi) x pr \<in> set n4"
    using visitProvinces_steps[OF o3 hj, of provinces "sprovinces (?g b)" "((ws2 @ n1) @ n2) @ n3"]
    by (elim exE conjE) (rule that)
  have "p \<in> set (sprovinces (?g b))" using shared by (simp add: stateGeometry_fields)
  moreover have "slots ?arr i = Some (?g a)" using fi by simp
  ultimately have "multiStatesWarning (?g b) i (sfile (?g a)) p pr \<in> set n4"
    using w4 m3p shared(3) by blast
  moreover have "multiStatesWarning (?g b) i (sfile (?g a)) p pr =
      \<lparr>wsource = [src ''state'' j, src ''state'' i, srcColor ''province'' p (color pr)],
       relatedFiles = [sfile b, sfile a],
       wtext = Localize ''worldmap.warnings.provinceinmultistates'' [Num p, Num i, Num j]\<rparr>"
    using sidb by (simp add: multiStatesWarning_def stateGeometry_fields)
  ultimately have warn:
    "\<lparr>wsource = [src ''state'' j, src ''state'' i, srcColor ''province'' p (color pr)],
      relatedFiles = [sfile b, sfile a],
      wtext = Localize ''worldmap.warnings.provinceinmultistates'' [Num p, Num i, Num j]\<rparr>
       \<in> set (n0 @ n1 @ n2 @ n3 @ n4 @ n5)" for n5
    by simp
  obtain m5 n5 where s5: "validateStates provinces ?arr [j + 1 .. ?L - 1]
        (m4, (((ws2 @ n1) @ n2) @ n3) @ n4) = Inr (m5, ((((ws2 @ n1) @ n2) @ n3) @ n4) @ n5)"
    using validateStates_steps[OF wf o4, of provinces "[j + 1 .. ?L - 1]" "(((ws2 @ n1) @ n2) @ n3) @ n4"]
    by (elim exE conjE) (rule that)
  have "validateStates provinces ?arr [?B + 1 .. ?L - 1] (Map.empty, ws2) =
          Inr (m5, ((((ws2 @ n1) @ n2) @ n3) @ n4) @ n5)"
    unfolding idx using s1 s2 s3 s4 s5 fi fj
    by (simp add: validateStates_append)
  then have v: "validateProvinceInState provinces ?arr (?B + 1) ws2 =
          Inr (ws1 @ (n0 @ n1 @ n2 @ n3 @ n4 @ n5))"
    by (simp add: validateProvinceInState_def n0)
  have "mergeFiles sortStatesOf mr provinces width height fileResults =
          Inr (\<lparr>loadedStates = ?arr, badStatesCount = ?B + 1\<rparr>,
               ws1 @ (n0 @ n1 @ n2 @ n3 @ n4 @ n5))"
    using sorted fs v by (simp add: mergeFiles_def concat_records)
  then show ?thesis using fi fj ga gb pa pb warn[of n5] by auto
qed

lemma sharedRegion_eq: "mergeRegions [exampleProvince 5 landBox] 100 = sharedRegion"
  by (simp add: mergeRegions_def sharedRegion_def exampleProvince_def landBox_def Let_def
      wrappedCentre_def)

text \<open>
  The examples run \<open>mergeFiles\<close> with the reconciliation of \<^verbatim>\<open>states.ts\<close> and the merge
  of the geometry section.
\<close>

lemma sharedFiles_run:
  "mergeFiles sortStates mergeRegions sharedProvinces 100 50 sharedFiles =
     Inr (sharedResult,
          [\<lparr>wsource = [src ''state'' 2, src ''state'' 1, srcColor ''province'' 5 5],
            relatedFiles = [''b.txt'', ''a.txt''],
            wtext = Localize ''worldmap.warnings.provinceinmultistates'' [Num 5, Num 1, Num 2]\<rparr>])"
  by (simp add: mergeFiles_def sharedFiles_def sortStates_def maxStateId_def placeAll_def
      place_def exampleState_def gapLoop.simps fillStates_def fillStep_def upto.simps
      calculateBoundingBox_def sharedProvinces_def List.map_filter_simps sharedRegion_eq
      withRegion_def validateProvinceInState_def visitProvince_def pushSea_def
      multiStatesWarning_def sharedResult_def Let_def)
     (simp add: sharedRegion_def landBox_def exampleProvince_def)

text \<open>
  The later state 2 lists only the shared province 5: were the province used for the
  earlier state 1 alone, state 2 would get the zero region. It gets the region of the
  province.
\<close>

theorem shared_province_geometry_counterexample:
  "mergeFiles sortStates mergeRegions sharedProvinces 100 50 sharedFiles =
     Inr (sharedResult,
          [\<lparr>wsource = [src ''state'' 2, src ''state'' 1, srcColor ''province'' 5 5],
            relatedFiles = [''b.txt'', ''a.txt''],
            wtext = Localize ''worldmap.warnings.provinceinmultistates'' [Num 5, Num 1, Num 2]\<rparr>]) \<and>
   slots (loadedStates sharedResult) 1 =
     Some (withRegion (exampleState 1 ''a.txt'' [5]) sharedRegion) \<and>
   slots (loadedStates sharedResult) 2 =
     Some (withRegion (exampleState 2 ''b.txt'' [5]) sharedRegion) \<and>
   boundingBox sharedRegion = boundingBox (exampleProvince 5 landBox) \<and>
   mass sharedRegion = 1 \<and> sharedRegion \<noteq> zeroRegion"
  using sharedFiles_run
  by (simp add: sharedResult_def sharedRegion_def exampleProvince_def zeroRegion_def)

text \<open>
  The range of indices matters: with the reconciliation of \<^verbatim>\<open>states.ts\<close> a state whose raw
  id is -7 stays at index -7, which neither loop visits. It gets no region, and the
  state 1 that lists the same province gets no warning.
\<close>

lemma mergeFiles_unvisited_state:
  "mergeFiles sortStates mergeRegions sharedProvinces 100 50 unvisitedFiles =
     Inr (unvisitedResult, []) \<and>
   slots (loadedStates unvisitedResult) (-7) = None"
  by (simp add: mergeFiles_def unvisitedFiles_def sortStates_def maxStateId_def placeAll_def
      place_def exampleState_def gapLoop.simps fillStates_def fillStep_def upto.simps
      calculateBoundingBox_def sharedProvinces_def List.map_filter_simps sharedRegion_eq
      withRegion_def validateProvinceInState_def visitProvince_def pushSea_def
      unvisitedResult_def Let_def)
     (simp add: sharedRegion_def landBox_def exampleProvince_def)

theorem mergeFiles_shared_province_witness:
  "sortStates (concat (map fst sharedFiles)) (concat (map snd sharedFiles)) =
     Inr (sharedSorted, []) \<and>
   sid (exampleState 1 ''a.txt'' [5]) = 1 \<and> sid (exampleState 2 ''b.txt'' [5]) = 2 \<and>
   badStateId sharedSorted < 1 \<and> 2 < len (sortedStates sharedSorted) \<and>
   slots (sortedStates sharedSorted) 1 = Some (exampleState 1 ''a.txt'' [5]) \<and>
   slots (sortedStates sharedSorted) 2 = Some (exampleState 2 ''b.txt'' [5]) \<and>
   sharedProvinces 5 = Some (exampleProvince 5 landBox) \<and>
   (\<exists>res new.
      mergeFiles sortStates mergeRegions sharedProvinces 100 50 sharedFiles = Inr (res, new) \<and>
      slots (loadedStates res) 2 =
        Some (withRegion (exampleState 2 ''b.txt'' [5]) (mergeRegions [exampleProvince 5 landBox] 100)) \<and>
      \<lparr>wsource = [src ''state'' 2, src ''state'' 1, srcColor ''province'' 5 5],
       relatedFiles = [''b.txt'', ''a.txt''],
       wtext = Localize ''worldmap.warnings.provinceinmultistates'' [Num 5, Num 1, Num 2]\<rparr>
        \<in> set new)"
proof -
  have run: "sortStates (concat (map fst sharedFiles)) (concat (map snd sharedFiles)) =
     Inr (sharedSorted, [])"
    by (simp add: sharedFiles_def sortStates_def maxStateId_def placeAll_def place_def
        exampleState_def gapLoop.simps sharedSorted_def Let_def)
  have indexed: "\<forall>k s. slots (sortedStates sharedSorted) k = Some s \<longrightarrow> sid s = k"
    by (auto simp: sharedSorted_def exampleState_def split: if_splits)
  have range: "badStateId sharedSorted < 1" "(1::int) < 2" "2 < len (sortedStates sharedSorted)"
    by (simp_all add: sharedSorted_def)
  have a: "slots (sortedStates sharedSorted) 1 = Some (exampleState 1 ''a.txt'' [5])"
    and b: "slots (sortedStates sharedSorted) 2 = Some (exampleState 2 ''b.txt'' [5])"
    by (simp_all add: sharedSorted_def)
  have shared: "5 \<in> set (sprovinces (exampleState 1 ''a.txt'' [5]))"
    "5 \<in> set (sprovinces (exampleState 2 ''b.txt'' [5]))"
    "sharedProvinces 5 = Some (exampleProvince 5 landBox)"
    by (simp_all add: exampleState_def sharedProvinces_def)
  have first: "\<forall>k s. badStateId sharedSorted < k \<and> k < 1 \<and>
      slots (sortedStates sharedSorted) k = Some s \<longrightarrow> 5 \<notin> set (sprovinces s)"
    by (auto simp: sharedSorted_def)
  have mf: "List.map_filter sharedProvinces (sprovinces (exampleState 2 ''b.txt'' [5])) =
      [exampleProvince 5 landBox]"
    by (simp add: exampleState_def sharedProvinces_def List.map_filter_simps)
  have sf: "sfile (exampleState 1 ''a.txt'' [5]) = ''a.txt''"
    "sfile (exampleState 2 ''b.txt'' [5]) = ''b.txt''"
    "color (exampleProvince 5 landBox) = 5"
    by (simp_all add: exampleState_def exampleProvince_def)
  have "\<exists>res new.
      mergeFiles sortStates mergeRegions sharedProvinces 100 50 sharedFiles = Inr (res, new) \<and>
      slots (loadedStates res) 2 =
        Some (withRegion (exampleState 2 ''b.txt'' [5]) (mergeRegions [exampleProvince 5 landBox] 100)) \<and>
      \<lparr>wsource = [src ''state'' 2, src ''state'' 1, srcColor ''province'' 5 5],
       relatedFiles = [''b.txt'', ''a.txt''],
       wtext = Localize ''worldmap.warnings.provinceinmultistates'' [Num 5, Num 1, Num 2]\<rparr>
        \<in> set new"
    using mergeFiles_shared_province[where sortStatesOf=sortStates and provinces=sharedProvinces
        and p=5 and mr=mergeRegions and width=100 and height=50,
        OF run indexed range a b shared first]
    unfolding mf sf by auto
  moreover have "sid (exampleState 1 ''a.txt'' [5]) = 1" "sid (exampleState 2 ''b.txt'' [5]) = 2"
    by (simp_all add: exampleState_def)
  ultimately show ?thesis using run range(1,3) a b shared(3) by blast
qed

subsection \<open>Reload propagation\<close>

text \<open>
  C8. When the default map loader reports that it should reload, so do the states,
  strategic regions and supply areas loaders, whatever their own files say.
\<close>

theorem shouldReload_propagates:
  assumes "defaultMapShouldReload c"
  shows "StatesLoader_shouldReload c \<and> StrategicRegionsLoader_shouldReload c \<and>
         SupplyAreasLoader_shouldReload c"
  using assms
  by (simp add: StatesLoader_shouldReload_def StrategicRegionsLoader_shouldReload_def
      SupplyAreasLoader_shouldReload_def SupplyAreasLoader_shouldReloadImpl_def)

theorem shouldReload_propagates_witness:
  "defaultMapShouldReload provinceFileChanged \<and>
   \<not> stateFilesChanged provinceFileChanged \<and>
   \<not> strategicRegionFilesChanged provinceFileChanged \<and>
   \<not> supplyAreaFilesChanged provinceFileChanged \<and>
   StatesLoader_shouldReload provinceFileChanged \<and>
   StrategicRegionsLoader_shouldReload provinceFileChanged \<and>
   SupplyAreasLoader_shouldReload provinceFileChanged"
proof -
  have h: "defaultMapShouldReload provinceFileChanged" by (simp add: provinceFileChanged_def)
  show ?thesis using shouldReload_propagates[OF h] by (simp add: provinceFileChanged_def)
qed

subsection \<open>Diff abandonment\<close>

lemma rangeLoop_step:
  "i \<le> e \<Longrightarrow> rangeLoop list cached cmd i e l msgs =
     rangeLoop list cached cmd (i + 1) e (fst (diffStep list cached cmd i e l))
       (msgs @ snd (diffStep list cached cmd i e l))"
  by (subst rangeLoop.simps) (simp add: diffStep_def split: option.splits)

lemma rangeLoop_done: "e < i \<Longrightarrow> rangeLoop list cached cmd i e l msgs = msgs"
  by (subst rangeLoop.simps) simp

lemma fillLoop_step:
  "i \<le> e \<Longrightarrow> fillLoop list cached cmd i e l msgs =
     (if snd (diffStep list cached cmd i e l) \<noteq> [] \<and>
         length (msgs @ snd (diffStep list cached cmd i e l)) > changeMessagesCountLimit
      then (False, msgs @ snd (diffStep list cached cmd i e l))
      else fillLoop list cached cmd (i + 1) e (fst (diffStep list cached cmd i e l))
             (msgs @ snd (diffStep list cached cmd i e l)))"
  by (subst fillLoop.simps) (simp add: diffStep_def Let_def split: option.splits)

lemma fillLoop_done: "e < i \<Longrightarrow> fillLoop list cached cmd i e l msgs = (True, msgs)"
  by (subst fillLoop.simps) simp

lemma rangeLoop_grows:
  "length msgs \<le> length (rangeLoop list cached cmd i e l msgs)"
proof (induction "nat (e + 1 - i)" arbitrary: i l msgs)
  case 0
  then show ?case by (simp add: rangeLoop_done)
next
  case (Suc k)
  then have le: "i \<le> e" and k: "k = nat (e + 1 - (i + 1))" by linarith+
  show ?case
    using Suc.hyps(1)[OF k, of "msgs @ snd (diffStep list cached cmd i e l)"
        "fst (diffStep list cached cmd i e l)"]
    by (simp add: rangeLoop_step[OF le])
qed

lemma fillLoop_bounded:
  assumes "length msgs \<le> changeMessagesCountLimit"
  shows "fst (fillLoop list cached cmd i e l msgs) =
           (length (rangeLoop list cached cmd i e l msgs) \<le> changeMessagesCountLimit) \<and>
         (fst (fillLoop list cached cmd i e l msgs) \<longrightarrow>
            snd (fillLoop list cached cmd i e l msgs) = rangeLoop list cached cmd i e l msgs)"
  using assms
proof (induction "nat (e + 1 - i)" arbitrary: i l msgs)
  case 0
  then have "e < i" by linarith
  then show ?case using "0.prems" by (simp add: fillLoop_done rangeLoop_done)
next
  case (Suc k)
  then have le: "i \<le> e" and k: "k = nat (e + 1 - (i + 1))" by linarith+
  let ?l = "fst (diffStep list cached cmd i e l)"
  let ?new = "snd (diffStep list cached cmd i e l)"
  show ?case
  proof (cases "length (msgs @ ?new) > changeMessagesCountLimit")
    case True
    then have ne: "?new \<noteq> []" using Suc.prems by auto
    have "\<not> length (rangeLoop list cached cmd (i + 1) e ?l (msgs @ ?new)) \<le> changeMessagesCountLimit"
      using rangeLoop_grows[of "msgs @ ?new" list cached cmd "i + 1" e ?l] True by linarith
    then show ?thesis using True ne by (simp add: fillLoop_step[OF le] rangeLoop_step[OF le])
  next
    case False
    then have ok: "length (msgs @ ?new) \<le> changeMessagesCountLimit" by simp
    show ?thesis
      using Suc.hyps(1)[OF k ok, of ?l] False
      by (simp add: fillLoop_step[OF le] rangeLoop_step[OF le])
  qed
qed

lemma wholesaleMessages_short: "length (wholesaleMessages cached worldMap) \<le> 3"
  by (simp add: wholesaleMessages_def)

lemma fillMessageForItem_within:
  assumes "length msgs \<le> changeMessagesCountLimit"
    and "length (rangeLoop list cached cmd a e None msgs) \<le> changeMessagesCountLimit"
  shows "fillMessageForItem msgs list cached cmd a e =
           (True, rangeLoop list cached cmd a e None msgs)"
  using fillLoop_bounded[OF assms(1), of list cached cmd a e None] assms(2)
  by (cases "fillLoop list cached cmd a e None msgs") (auto simp: fillMessageForItem_def)

lemma fillMessageForItem_over:
  assumes "length msgs \<le> changeMessagesCountLimit"
    and "\<not> length (rangeLoop list cached cmd a e None msgs) \<le> changeMessagesCountLimit"
  shows "\<exists>m. fillMessageForItem msgs list cached cmd a e = (False, m)"
  using fillLoop_bounded[OF assms(1), of list cached cmd a e None] assms(2)
  by (cases "fillLoop list cached cmd a e None msgs") (auto simp: fillMessageForItem_def)

text \<open>
  C2. If the comparison of the two snapshots would queue more than 30 change messages,
  \<open>sendDifferences\<close> returns false and has posted nothing but its progress message, and
  \<open>sendProvinceMapSummaryToWebview\<close> then posts one full-snapshot message: no change
  message reaches the webview.
\<close>

theorem sendDifferences_abandons:
  assumes "30 < length (wouldQueue cached worldMap)"
  shows "sendDifferences cached worldMap = (False, [Progress ''Comparing changes...'']) \<and>
         sendProvinceMapSummaryToWebview False (Some cached) worldMap =
           [Progress ''Comparing changes...'', Summary (summaryOf worldMap)]"
proof -
  let ?m0 = "wholesaleMessages cached worldMap"
  let ?r1 = "rangeLoop (wm_provinces worldMap) (wm_provinces cached) ''provinces''
               (wm_badProvincesCount worldMap) (wm_provincesCount worldMap) None ?m0"
  let ?r2 = "rangeLoop (wm_states worldMap) (wm_states cached) ''states''
               (wm_badStatesCount worldMap) (wm_statesCount worldMap) None ?r1"
  let ?r3 = "rangeLoop (wm_countries worldMap) (wm_countries cached) ''countries''
               0 (wm_countriesCount worldMap) None ?r2"
  have over: "\<not> length ?r3 \<le> changeMessagesCountLimit"
    using assms by (simp add: wouldQueue_def changeMessagesCountLimit_def)
  have m0: "length ?m0 \<le> changeMessagesCountLimit"
    using wholesaleMessages_short[of cached worldMap] by (simp add: changeMessagesCountLimit_def)
  have sd: "sendDifferences cached worldMap = (False, [Progress ''Comparing changes...''])"
  proof (cases "scalarsDiffer cached worldMap")
    case True
    then show ?thesis by (simp add: sendDifferences_def)
  next
    case sc: False
    show ?thesis
    proof (cases "length ?r1 \<le> changeMessagesCountLimit")
      case False
      obtain m where "fillMessageForItem ?m0 (wm_provinces worldMap) (wm_provinces cached)
          ''provinces'' (wm_badProvincesCount worldMap) (wm_provincesCount worldMap) = (False, m)"
        using fillMessageForItem_over[OF m0 False] by blast
      then show ?thesis using sc by (simp add: sendDifferences_def)
    next
      case r1: True
      have f1: "fillMessageForItem ?m0 (wm_provinces worldMap) (wm_provinces cached)
          ''provinces'' (wm_badProvincesCount worldMap) (wm_provincesCount worldMap) = (True, ?r1)"
        by (rule fillMessageForItem_within[OF m0 r1])
      show ?thesis
      proof (cases "length ?r2 \<le> changeMessagesCountLimit")
        case False
        obtain m where "fillMessageForItem ?r1 (wm_states worldMap) (wm_states cached)
            ''states'' (wm_badStatesCount worldMap) (wm_statesCount worldMap) = (False, m)"
          using fillMessageForItem_over[OF r1 False] by blast
        then show ?thesis using sc f1 by (simp add: sendDifferences_def)
      next
        case r2: True
        have f2: "fillMessageForItem ?r1 (wm_states worldMap) (wm_states cached)
            ''states'' (wm_badStatesCount worldMap) (wm_statesCount worldMap) = (True, ?r2)"
          by (rule fillMessageForItem_within[OF r1 r2])
        obtain m where "fillMessageForItem ?r2 (wm_countries worldMap) (wm_countries cached)
            ''countries'' 0 (wm_countriesCount worldMap) = (False, m)"
          using fillMessageForItem_over[OF r2 over] by blast
        then show ?thesis using sc f1 f2 by (simp add: sendDifferences_def)
      qed
    qed
  qed
  then show ?thesis by (simp add: sendProvinceMapSummaryToWebview_def)
qed

theorem sendDifferences_abandons_witness:
  "length (wouldQueue oldSnapshot newSnapshot) = 31 \<and>
   sendDifferences oldSnapshot newSnapshot = (False, [Progress ''Comparing changes...'']) \<and>
   sendProvinceMapSummaryToWebview False (Some oldSnapshot) newSnapshot =
     [Progress ''Comparing changes...'', Summary (summaryOf newSnapshot)]"
proof -
  have n: "length (wouldQueue oldSnapshot newSnapshot) = 31"
    by (simp add: wouldQueue_def oldSnapshot_def newSnapshot_def wholesaleMessages_def
        rangeLoop.simps messageCountLimit_def)
  then have h: "30 < length (wouldQueue oldSnapshot newSnapshot)" by simp
  show ?thesis using sendDifferences_abandons[OF h] n by simp
qed

subsection \<open>Contiguity of members with distinct ids\<close>

lemma reachedFrom_members: "s0 \<in> set states \<Longrightarrow> reachedFrom states provinces s0 \<subseteq> set states"
proof
  fix x assume s: "s0 \<in> set states" and r: "x \<in> reachedFrom states provinces s0"
  from r s show "x \<in> set states" by (induction rule: reachedFrom.induct) auto
qed

text \<open>The inner loop over the members, for one popped state.\<close>

lemma visitStates_result:
  assumes "set xs \<subseteq> set states" "inj_on sid (set states)" "cur \<in> reachedFrom states provinces s0"
    and "set st \<subseteq> reachedFrom states provinces s0" "sid ` set st \<subseteq> set acc"
    and "set acc \<subseteq> sid ` reachedFrom states provinces s0" "distinct acc"
  shows "\<exists>pushed. foldl (visitState cur provinces) (st, acc) xs = (st @ pushed, acc @ map sid pushed) \<and>
           set pushed \<subseteq> reachedFrom states provinces s0 \<and>
           distinct (acc @ map sid pushed) \<and>
           (\<forall>s\<in>set xs. statesAreAdjacent s cur provinces \<longrightarrow> sid s \<in> set (acc @ map sid pushed))"
  using assms
proof (induction xs arbitrary: st acc)
  case Nil
  then show ?case by (intro exI[of _ "[]"]) simp
next
  case (Cons x xs)
  have xin: "x \<in> set states" and xs: "set xs \<subseteq> set states" using Cons.prems(1) by auto
  show ?case
  proof (cases "sid x \<notin> set acc \<and> statesAreAdjacent x cur provinces")
    case True
    have xr: "x \<in> reachedFrom states provinces s0"
      using reachedFrom.step[OF Cons.prems(3) xin] True by simp
    have v: "visitState cur provinces (st, acc) x = (st @ [x], acc @ [sid x])"
      using True by (simp add: visitState_def)
    obtain pushed where p: "foldl (visitState cur provinces) (st @ [x], acc @ [sid x]) xs =
          ((st @ [x]) @ pushed, (acc @ [sid x]) @ map sid pushed)"
      "set pushed \<subseteq> reachedFrom states provinces s0"
      "distinct ((acc @ [sid x]) @ map sid pushed)"
      "\<forall>s\<in>set xs. statesAreAdjacent s cur provinces \<longrightarrow> sid s \<in> set ((acc @ [sid x]) @ map sid pushed)"
    proof -
      have 1: "set (st @ [x]) \<subseteq> reachedFrom states provinces s0" using Cons.prems(4) xr by simp
      have 2: "sid ` set (st @ [x]) \<subseteq> set (acc @ [sid x])" using Cons.prems(5) by auto
      have 3: "set (acc @ [sid x]) \<subseteq> sid ` reachedFrom states provinces s0"
        using Cons.prems(6) xr by auto
      have 4: "distinct (acc @ [sid x])" using Cons.prems(7) True by simp
      from Cons.IH[OF xs Cons.prems(2,3) 1 2 3 4] show ?thesis
        by (elim exE conjE) (rule that)
    qed
    show ?thesis
      using p v xr by (intro exI[of _ "x # pushed"]) auto
  next
    case False
    have v: "visitState cur provinces (st, acc) x = (st, acc)"
      using False by (auto simp: visitState_def)
    obtain pushed where p: "foldl (visitState cur provinces) (st, acc) xs =
          (st @ pushed, acc @ map sid pushed)"
      "set pushed \<subseteq> reachedFrom states provinces s0"
      "distinct (acc @ map sid pushed)"
      "\<forall>s\<in>set xs. statesAreAdjacent s cur provinces \<longrightarrow> sid s \<in> set (acc @ map sid pushed)"
      using Cons.IH[OF xs Cons.prems(2-7)] by (elim exE conjE) (rule that)
    show ?thesis
      using p v False by (intro exI[of _ pushed]) auto
  qed
qed

lemma searchInv_empty_stack:
  assumes "s0 \<in> set states" "searchInv states provinces s0 [] accessed"
  shows "set accessed = sid ` reachedFrom states provinces s0"
proof -
  have closed: "\<forall>c\<in>set states. sid c \<in> set accessed \<longrightarrow>
      (\<forall>s\<in>set states. statesAreAdjacent s c provinces \<longrightarrow> sid s \<in> set accessed)"
    using assms(2) by (simp add: searchInv_def)
  have start: "sid s0 \<in> set accessed" using assms(2) by (simp add: searchInv_def)
  have "sid x \<in> set accessed" if "x \<in> reachedFrom states provinces s0" for x
    using that
  proof (induction rule: reachedFrom.induct)
    case start
    then show ?case by (rule \<open>sid s0 \<in> set accessed\<close>)
  next
    case (step c s)
    have "c \<in> set states" using reachedFrom_members[OF assms(1)] step.hyps(1) by blast
    then show ?case using closed step by blast
  qed
  moreover have "set accessed \<subseteq> sid ` reachedFrom states provinces s0"
    using assms(2) by (simp add: searchInv_def)
  ultimately show ?thesis by blast
qed

lemma searchInv_step:
  assumes inj: "inj_on sid (set states)" and s0: "s0 \<in> set states"
    and inv: "searchInv states provinces s0 (v # va) accessed"
  shows "searchInv states provinces s0
           (fst (foldl (visitState (last (v # va)) provinces) (butlast (v # va), accessed) states))
           (snd (foldl (visitState (last (v # va)) provinces) (butlast (v # va), accessed) states))"
proof -
  let ?R = "reachedFrom states provinces s0"
  let ?cur = "last (v # va)"
  let ?st = "butlast (v # va)"
  have stack: "set (v # va) \<subseteq> ?R" "sid ` set (v # va) \<subseteq> set accessed"
    and acc: "set accessed \<subseteq> sid ` ?R" "sid s0 \<in> set accessed" "distinct accessed"
    and fin: "\<forall>c\<in>set states. sid c \<in> set accessed \<longrightarrow>
        c \<in> set (v # va) \<or> (\<forall>s\<in>set states. statesAreAdjacent s c provinces \<longrightarrow> sid s \<in> set accessed)"
    using inv unfolding searchInv_def by blast+
  have cur: "?cur \<in> ?R" using stack(1) last_in_set[of "v # va"] by blast
  have st: "set ?st \<subseteq> ?R" "sid ` set ?st \<subseteq> set accessed"
    using stack in_set_butlastD[of _ "v # va"] by blast+
  obtain pushed where f: "foldl (visitState ?cur provinces) (?st, accessed) states =
        (?st @ pushed, accessed @ map sid pushed)"
    and pr: "set pushed \<subseteq> ?R"
    and d: "distinct (accessed @ map sid pushed)"
    and adj: "\<forall>s\<in>set states. statesAreAdjacent s ?cur provinces \<longrightarrow>
               sid s \<in> set (accessed @ map sid pushed)"
    using visitStates_result[OF subset_refl inj cur st acc(1,3)] by (elim exE conjE) (rule that)
  have split: "set (v # va) = insert ?cur (set ?st)"
    by (metis append_butlast_last_id list.distinct(1) list.simps(15) rotate1.simps(2) set_rotate1)
  have closed: "c \<in> set (?st @ pushed) \<or>
      (\<forall>s\<in>set states. statesAreAdjacent s c provinces \<longrightarrow> sid s \<in> set (accessed @ map sid pushed))"
    if c: "c \<in> set states" "sid c \<in> set (accessed @ map sid pushed)" for c
  proof (cases "sid c \<in> set accessed")
    case True
    then consider "c = ?cur" | "c \<in> set ?st"
      | "\<forall>s\<in>set states. statesAreAdjacent s c provinces \<longrightarrow> sid s \<in> set accessed"
      using fin c(1) split by blast
    then show ?thesis
    proof cases
      case 1
      then show ?thesis using adj by blast
    next
      case 2
      then show ?thesis by simp
    next
      case 3
      then show ?thesis by auto
    qed
  next
    case False
    then obtain q where q: "q \<in> set pushed" "sid q = sid c" using c(2) by auto
    then have "q \<in> set states" using pr reachedFrom_members[OF s0] by blast
    then have "q = c" using inj q(2) c(1) by (auto dest: inj_onD)
    then show ?thesis using q(1) by simp
  qed
  show ?thesis
    unfolding f fst_conv snd_conv searchInv_def
    using st pr acc d closed by auto
qed

lemma searchStates_reached:
  assumes "inj_on sid (set states)" "s0 \<in> set states"
    and "searchInv states provinces s0 stack accessed"
  shows "set (searchStates states provinces stack accessed) = sid ` reachedFrom states provinces s0 \<and>
         distinct (searchStates states provinces stack accessed)"
  using assms
proof (induction states provinces stack accessed rule: searchStates.induct)
  case (1 states provinces accessed)
  then show ?case using searchInv_empty_stack[OF "1.prems"(2,3)]
    by (simp add: searchInv_def searchStates.simps)
next
  case (2 states provinces v va accessed)
  let ?x = "foldl (visitState (last (v # va)) provinces) (butlast (v # va), accessed) states"
  have "searchInv states provinces s0 (fst ?x) (snd ?x)"
    by (rule searchInv_step[OF "2.prems"])
  from "2.IH"[OF refl "2.prems"(1,2) this] show ?case
    by (subst (1 2) searchStates.simps) (simp del: butlast.simps last.simps add: Let_def)
qed

lemma objectKeys_set: "set (objectKeys ks) = set ks"
  by (auto simp: objectKeys_def)

lemma objectKeys_length: "length (objectKeys ks) = length ks"
proof -
  have "(\<lambda>k::int. k < 0) = (\<lambda>k. \<not> 0 \<le> k)" by auto
  then show ?thesis
    using sum_length_filter_compl[of "\<lambda>k. 0 \<le> k" ks] by (simp add: objectKeys_def)
qed

text \<open>
  On a list of members with pairwise distinct ids, \<open>checkStatesContiguous\<close> returns
  \<^verbatim>\<open>undefined\<close> exactly when every member is reached from the first one, and otherwise
  the id of a member that is not reached, paired with the id of one that is.
\<close>

lemma checkStatesContiguous_distinct:
  assumes st: "states = s0 # rest" and dist: "distinct (map sid states)"
  shows "(checkStatesContiguous states provinces = Inr None \<longleftrightarrow>
            set states \<subseteq> reachedFrom states provinces s0) \<and>
         (\<not> set states \<subseteq> reachedFrom states provinces s0 \<longrightarrow>
            (\<exists>u r. checkStatesContiguous states provinces = Inr (Some (sid u, sid r)) \<and>
                   u \<in> set states \<and> u \<notin> reachedFrom states provinces s0 \<and>
                   r \<in> reachedFrom states provinces s0))"
proof -
  let ?R = "reachedFrom states provinces s0"
  let ?r = "searchStates states provinces [s0] [sid s0]"
  let ?keys = "objectKeys ?r"
  have inj: "inj_on sid (set states)" using dist by (simp only: distinct_map)
  have s0: "s0 \<in> set states" using st by simp
  have RS: "?R \<subseteq> set states" by (rule reachedFrom_members[OF s0])
  have init: "searchInv states provinces s0 [s0] [sid s0]"
  proof -
    have "c = s0" if "c \<in> set states" "sid c = sid s0" for c
      by (rule inj_onD[OF inj that(2) that(1) s0])
    then show ?thesis
      unfolding searchInv_def using reachedFrom.start by auto
  qed
  have r: "set ?r = sid ` ?R" "distinct ?r"
    using searchStates_reached[OF inj s0 init] by simp_all
  have keys: "set ?keys = sid ` ?R" "length ?keys = card (sid ` ?R)"
    using r distinct_card[OF r(2)] by (simp_all add: objectKeys_set objectKeys_length)
  have lenS: "length states = card (sid ` set states)"
    using dist distinct_card[of "map sid states"] by simp
  have eq: "length ?keys = length states \<longleftrightarrow> set states \<subseteq> ?R"
  proof
    assume "length ?keys = length states"
    then have "card (sid ` ?R) = card (sid ` set states)" using keys lenS by simp
    moreover have "sid ` ?R \<subseteq> sid ` set states" using RS by blast
    ultimately have "sid ` ?R = sid ` set states" by (simp add: card_subset_eq)
    then have "?R = set states" using inj RS by (metis inj_on_image_eq_iff subset_refl)
    then show "set states \<subseteq> ?R" by simp
  next
    assume "set states \<subseteq> ?R"
    then have "?R = set states" using RS by blast
    then show "length ?keys = length states" using keys lenS by simp
  qed
  have def: "checkStatesContiguous states provinces =
      (if length ?keys = length states then Inr None
       else (case find (\<lambda>state. sid state \<notin> set ?keys) states of
               None \<Rightarrow> Inl (TypeError ''id'')
             | Some u \<Rightarrow> Inr (Some (sid u, (case ?keys of [] \<Rightarrow> 0 | k # ks \<Rightarrow> k)))))"
    unfolding st by (simp add: checkStatesContiguous_def Let_def)
  have part1: "checkStatesContiguous states provinces = Inr None \<longleftrightarrow> set states \<subseteq> ?R"
    unfolding def using eq by (auto split: option.splits)
  have part2: "\<exists>u r. checkStatesContiguous states provinces = Inr (Some (sid u, sid r)) \<and>
                   u \<in> set states \<and> u \<notin> ?R \<and> r \<in> ?R"
    if no: "\<not> set states \<subseteq> ?R"
  proof -
    from no obtain x where x: "x \<in> set states" "x \<notin> ?R" by blast
    have "sid x \<notin> sid ` ?R"
    proof
      assume "sid x \<in> sid ` ?R"
      then obtain y where y: "y \<in> ?R" "sid y = sid x" by auto
      moreover have "y \<in> set states" using y(1) RS by blast
      ultimately have "y = x" by (intro inj_onD[OF inj _ _ x(1)]) simp_all
      then show False using x(2) y(1) by simp
    qed
    then have "\<exists>u. find (\<lambda>state. sid state \<notin> set ?keys) states = Some u"
      using x(1) keys(1) by (cases "find (\<lambda>state. sid state \<notin> set ?keys) states")
        (auto simp: find_None_iff)
    then obtain u where u: "find (\<lambda>state. sid state \<notin> set ?keys) states = Some u" by blast
    then have uS: "u \<in> set states" and un: "sid u \<notin> set ?keys"
      by (auto simp: find_Some_iff dest: nth_mem)
    have uR: "u \<notin> ?R" using un keys(1) by blast
    have "sid s0 \<in> set ?keys" using keys(1) reachedFrom.start by blast
    then obtain k ks where k: "?keys = k # ks" by (cases ?keys) auto
    then have "k \<in> sid ` ?R" using keys(1) by (metis list.set_intros(1))
    then obtain r0 where r0: "r0 \<in> ?R" "k = sid r0" by blast
    have "checkStatesContiguous states provinces = Inr (Some (sid u, sid r0))"
      unfolding def using eq no u k r0 by simp
    then show ?thesis using uS uR r0(1) by blast
  qed
  show ?thesis using part1 part2 by blast
qed

end
